theory Spec2Isabelle
  imports Main
begin

section \<open>The four-stage multi-agent debate scheduler (graph.py)\<close>

text \<open>
  This theory embeds the control logic of \<^verbatim>\<open>graph.py\<close>: the scheduler
  \<^verbatim>\<open>determine_next_node\<close>, the fair-rotation selection
  \<^verbatim>\<open>select_next_questioner_and_target\<close>, the context lookup
  \<^verbatim>\<open>get_rag_context_for_agent\<close>, the per-stage turn generators, the node functions
  \<^verbatim>\<open>agent_node\<close> and \<^verbatim>\<open>handle_stage_transition\<close>, and the loop of the graph
  runtime that executes one node after the other. Of \<^verbatim>\<open>debates.py\<close> it embeds what
  happens before the graph is started: the checks of \<^verbatim>\<open>generate_response\<close>, the preload
  of the retrieval collaborator and the inputs of the graph.

  Conventions of the embedding.
  \<^item> A Python \<^verbatim>\<open>str\<close> value is a \<^typ>\<open>string\<close> that holds the UTF-8 encoding of the text;
    the fixed Chinese texts of the source are written as their bytes, with an English gloss
    beside each definition.
  \<^item> Python integers are \<^typ>\<open>int\<close>; list indexing follows Python (negative indices count
    from the end, out of range raises).
  \<^item> An exception is the \<open>Inl\<close> side of a sum.
  \<^item> The three external sources of behaviour are supplied by an environment value for
    each node execution: the raw draws of \<^verbatim>\<open>random.choice\<close>, the reply of the retrieval
    collaborator and the reply of the inference collaborator.
\<close>

subsection \<open>Fixed texts\<close>

definition name_environmentalist :: string where \<comment> \<open>display name of environmentalist\<close>
  "name_environmentalist =
    [CHR 0xE7, CHR 0x8E, CHR 0xAF, CHR 0xE4, CHR 0xBF, CHR 0x9D, CHR 0xE4, CHR 0xB8, CHR 0xBB,
     CHR 0xE4, CHR 0xB9, CHR 0x89, CHR 0xE8, CHR 0x80, CHR 0x85]"

definition name_economist :: string where \<comment> \<open>display name of economist\<close>
  "name_economist =
    [CHR 0xE7, CHR 0xBB, CHR 0x8F, CHR 0xE6, CHR 0xB5, CHR 0x8E, CHR 0xE5, CHR 0xAD, CHR 0xA6,
     CHR 0xE5, CHR 0xAE, CHR 0xB6]"

definition name_policy_maker :: string where \<comment> \<open>display name of policy_maker\<close>
  "name_policy_maker =
    [CHR 0xE6, CHR 0x94, CHR 0xBF, CHR 0xE7, CHR 0xAD, CHR 0x96, CHR 0xE5, CHR 0x88, CHR 0xB6,
     CHR 0xE5, CHR 0xAE, CHR 0x9A, CHR 0xE8, CHR 0x80, CHR 0x85]"

definition name_tech_expert :: string where \<comment> \<open>display name of tech_expert\<close>
  "name_tech_expert =
    [CHR 0xE6, CHR 0x8A, CHR 0x80, CHR 0xE6, CHR 0x9C, CHR 0xAF, CHR 0xE4, CHR 0xB8, CHR 0x93,
     CHR 0xE5, CHR 0xAE, CHR 0xB6]"

definition name_sociologist :: string where \<comment> \<open>display name of sociologist\<close>
  "name_sociologist =
    [CHR 0xE7, CHR 0xA4, CHR 0xBE, CHR 0xE4, CHR 0xBC, CHR 0x9A, CHR 0xE5, CHR 0xAD, CHR 0xA6,
     CHR 0xE5, CHR 0xAE, CHR 0xB6]"

definition name_ethicist :: string where \<comment> \<open>display name of ethicist\<close>
  "name_ethicist =
    [CHR 0xE4, CHR 0xBC, CHR 0xA6, CHR 0xE7, CHR 0x90, CHR 0x86, CHR 0xE5, CHR 0xAD, CHR 0xA6,
     CHR 0xE5, CHR 0xAE, CHR 0xB6]"

definition rag_disabled_text :: string where \<comment> \<open>web search is not enabled\<close>
  "rag_disabled_text =
    [CHR 0xE5, CHR 0xBD, CHR 0x93, CHR 0xE5, CHR 0x89, CHR 0x8D, CHR 0xE6, CHR 0x9C, CHR 0xAA,
     CHR 0xE5, CHR 0x90, CHR 0xAF, CHR 0xE7, CHR 0x94, CHR 0xA8, CHR 0xE8, CHR 0x81, CHR 0x94,
     CHR 0xE7, CHR 0xBD, CHR 0x91, CHR 0xE6, CHR 0x90, CHR 0x9C, CHR 0xE7, CHR 0xB4, CHR 0xA2,
     CHR 0xE5, CHR 0x8A, CHR 0x9F, CHR 0xE8, CHR 0x83, CHR 0xBD, CHR 0xE3, CHR 0x80, CHR 0x82]"

definition no_material_marker :: string where \<comment> \<open>the retrieval module's own nothing-found marker\<close>
  "no_material_marker =
    [CHR 0xE6, CHR 0x9A, CHR 0x82, CHR 0xE6, CHR 0x97, CHR 0xA0, CHR 0xE7, CHR 0x9B, CHR 0xB8,
     CHR 0xE5, CHR 0x85, CHR 0xB3, CHR 0xE5, CHR 0xAD, CHR 0xA6, CHR 0xE6, CHR 0x9C, CHR 0xAF,
     CHR 0xE8, CHR 0xB5, CHR 0x84, CHR 0xE6, CHR 0x96, CHR 0x99, CHR 0xE3, CHR 0x80, CHR 0x82]"

definition nothing_found_text :: string where \<comment> \<open>nothing directly relevant found; argue from your expertise\<close>
  "nothing_found_text =
    [CHR 0xE6, CHR 0x9A, CHR 0x82, CHR 0xE6, CHR 0x9C, CHR 0xAA, CHR 0xE6, CHR 0x89, CHR 0xBE,
     CHR 0xE5, CHR 0x88, CHR 0xB0, CHR 0xE7, CHR 0x9B, CHR 0xB4, CHR 0xE6, CHR 0x8E, CHR 0xA5,
     CHR 0xE7, CHR 0x9B, CHR 0xB8, CHR 0xE5, CHR 0x85, CHR 0xB3, CHR 0xE7, CHR 0x9A, CHR 0x84,
     CHR 0xE6, CHR 0x9C, CHR 0x80, CHR 0xE6, CHR 0x96, CHR 0xB0, CHR 0xE4, CHR 0xBF, CHR 0xA1,
     CHR 0xE6, CHR 0x81, CHR 0xAF, CHR 0xEF, CHR 0xBC, CHR 0x8C, CHR 0xE8, CHR 0xAF, CHR 0xB7,
     CHR 0xE5, CHR 0x9F, CHR 0xBA, CHR 0xE4, CHR 0xBA, CHR 0x8E, CHR 0xE4, CHR 0xBD, CHR 0xA0,
     CHR 0xE7, CHR 0x9A, CHR 0x84, CHR 0xE4, CHR 0xB8, CHR 0x93, CHR 0xE4, CHR 0xB8, CHR 0x9A,
     CHR 0xE7, CHR 0x9F, CHR 0xA5, CHR 0xE8, CHR 0xAF, CHR 0x86, CHR 0xE5, CHR 0x8F, CHR 0x91,
     CHR 0xE8, CHR 0xA1, CHR 0xA8, CHR 0xE8, CHR 0xA7, CHR 0x82, CHR 0xE7, CHR 0x82, CHR 0xB9,
     CHR 0xE3, CHR 0x80, CHR 0x82]"

definition rag_failure_text :: string where \<comment> \<open>web search hit a technical problem\<close>
  "rag_failure_text =
    [CHR 0xE8, CHR 0x81, CHR 0x94, CHR 0xE7, CHR 0xBD, CHR 0x91, CHR 0xE6, CHR 0x90, CHR 0x9C,
     CHR 0xE7, CHR 0xB4, CHR 0xA2, CHR 0xE9, CHR 0x81, CHR 0x87, CHR 0xE5, CHR 0x88, CHR 0xB0,
     CHR 0xE6, CHR 0x8A, CHR 0x80, CHR 0xE6, CHR 0x9C, CHR 0xAF, CHR 0xE9, CHR 0x97, CHR 0xAE,
     CHR 0xE9, CHR 0xA2, CHR 0x98, CHR 0xEF, CHR 0xBC, CHR 0x8C, CHR 0xE8, CHR 0xAF, CHR 0xB7,
     CHR 0xE5, CHR 0x9F, CHR 0xBA, CHR 0xE4, CHR 0xBA, CHR 0x8E, CHR 0xE4, CHR 0xBD, CHR 0xA0,
     CHR 0xE7, CHR 0x9A, CHR 0x84, CHR 0xE4, CHR 0xB8, CHR 0x93, CHR 0xE4, CHR 0xB8, CHR 0x9A,
     CHR 0xE7, CHR 0x9F, CHR 0xA5, CHR 0xE8, CHR 0xAF, CHR 0x86, CHR 0xE5, CHR 0x8F, CHR 0x91,
     CHR 0xE8, CHR 0xA1, CHR 0xA8, CHR 0xE8, CHR 0xA7, CHR 0x82, CHR 0xE7, CHR 0x82, CHR 0xB9,
     CHR 0xE3, CHR 0x80, CHR 0x82]"

definition not_initialised_text :: string where \<comment> \<open>sorry, the model is not initialised\<close>
  "not_initialised_text =
    [CHR 0x3A, CHR 0x20, CHR 0xE6, CHR 0x8A, CHR 0xB1, CHR 0xE6, CHR 0xAD, CHR 0x89, CHR 0xEF,
     CHR 0xBC, CHR 0x8C, CHR 0x41, CHR 0x49, CHR 0xE6, CHR 0xA8, CHR 0xA1, CHR 0xE5, CHR 0x9E,
     CHR 0x8B, CHR 0xE6, CHR 0x9C, CHR 0xAA, CHR 0xE6, CHR 0xAD, CHR 0xA3, CHR 0xE7, CHR 0xA1,
     CHR 0xAE, CHR 0xE5, CHR 0x88, CHR 0x9D, CHR 0xE5, CHR 0xA7, CHR 0x8B, CHR 0xE5, CHR 0x8C,
     CHR 0x96, CHR 0xE3, CHR 0x80, CHR 0x82]"

definition unknown_stage_text :: string where \<comment> \<open>unknown debate stage\<close>
  "unknown_stage_text =
    [CHR 0x3A, CHR 0x20, CHR 0xE6, CHR 0x9C, CHR 0xAA, CHR 0xE7, CHR 0x9F, CHR 0xA5, CHR 0xE7,
     CHR 0x9A, CHR 0x84, CHR 0xE8, CHR 0xBE, CHR 0xA9, CHR 0xE8, CHR 0xAE, CHR 0xBA, CHR 0xE9,
     CHR 0x98, CHR 0xB6, CHR 0xE6, CHR 0xAE, CHR 0xB5, CHR 0xE3, CHR 0x80, CHR 0x82]"

definition cannot_speak_text :: string where \<comment> \<open>sorry, I cannot speak now. Technical problem:\<close>
  "cannot_speak_text =
    [CHR 0x3A, CHR 0x20, CHR 0xE6, CHR 0x8A, CHR 0xB1, CHR 0xE6, CHR 0xAD, CHR 0x89, CHR 0xEF,
     CHR 0xBC, CHR 0x8C, CHR 0xE6, CHR 0x88, CHR 0x91, CHR 0xE7, CHR 0x8E, CHR 0xB0, CHR 0xE5,
     CHR 0x9C, CHR 0xA8, CHR 0xE6, CHR 0x97, CHR 0xA0, CHR 0xE6, CHR 0xB3, CHR 0x95, CHR 0xE5,
     CHR 0x8F, CHR 0x91, CHR 0xE8, CHR 0xA8, CHR 0x80, CHR 0xE3, CHR 0x80, CHR 0x82, CHR 0xE6,
     CHR 0x8A, CHR 0x80, CHR 0xE6, CHR 0x9C, CHR 0xAF, CHR 0xE9, CHR 0x97, CHR 0xAE, CHR 0xE9,
     CHR 0xA2, CHR 0x98, CHR 0xEF, CHR 0xBC, CHR 0x9A]"

definition not_my_question_time_text :: string where \<comment> \<open>it is not my question time now\<close>
  "not_my_question_time_text =
    [CHR 0x3A, CHR 0x20, CHR 0xE5, CHR 0xBD, CHR 0x93, CHR 0xE5, CHR 0x89, CHR 0x8D, CHR 0xE4,
     CHR 0xB8, CHR 0x8D, CHR 0xE6, CHR 0x98, CHR 0xAF, CHR 0xE6, CHR 0x88, CHR 0x91, CHR 0xE7,
     CHR 0x9A, CHR 0x84, CHR 0xE6, CHR 0x8F, CHR 0x90, CHR 0xE9, CHR 0x97, CHR 0xAE, CHR 0xE6,
     CHR 0x97, CHR 0xB6, CHR 0xE9, CHR 0x97, CHR 0xB4, CHR 0xE3, CHR 0x80, CHR 0x82]"

definition no_question_found_text :: string where \<comment> \<open>found no question to answer\<close>
  "no_question_found_text =
    [CHR 0x3A, CHR 0x20, CHR 0xE6, CHR 0xB2, CHR 0xA1, CHR 0xE6, CHR 0x9C, CHR 0x89, CHR 0xE6,
     CHR 0x89, CHR 0xBE, CHR 0xE5, CHR 0x88, CHR 0xB0, CHR 0xE9, CHR 0x9C, CHR 0x80, CHR 0xE8,
     CHR 0xA6, CHR 0x81, CHR 0xE5, CHR 0x9B, CHR 0x9E, CHR 0xE7, CHR 0xAD, CHR 0x94, CHR 0xE7,
     CHR 0x9A, CHR 0x84, CHR 0xE9, CHR 0x97, CHR 0xAE, CHR 0xE9, CHR 0xA2, CHR 0x98, CHR 0xE3,
     CHR 0x80, CHR 0x82]"

definition technical_problem_text :: string where \<comment> \<open>sorry, a technical problem prevents me from speaking\<close>
  "technical_problem_text =
    [CHR 0x3A, CHR 0x20, CHR 0xE6, CHR 0x8A, CHR 0xB1, CHR 0xE6, CHR 0xAD, CHR 0x89, CHR 0xEF,
     CHR 0xBC, CHR 0x8C, CHR 0xE6, CHR 0x8A, CHR 0x80, CHR 0xE6, CHR 0x9C, CHR 0xAF, CHR 0xE9,
     CHR 0x97, CHR 0xAE, CHR 0xE9, CHR 0xA2, CHR 0x98, CHR 0xE5, CHR 0xAF, CHR 0xBC, CHR 0xE8,
     CHR 0x87, CHR 0xB4, CHR 0xE6, CHR 0x97, CHR 0xA0, CHR 0xE6, CHR 0xB3, CHR 0x95, CHR 0xE5,
     CHR 0x8F, CHR 0x91, CHR 0xE8, CHR 0xA8, CHR 0x80, CHR 0xE3, CHR 0x80, CHR 0x82]"

definition system_error_prefix :: string where \<comment> \<open>system error:\<close>
  "system_error_prefix =
    [CHR 0xE7, CHR 0xB3, CHR 0xBB, CHR 0xE7, CHR 0xBB, CHR 0x9F, CHR 0xE9, CHR 0x94, CHR 0x99,
     CHR 0xE8, CHR 0xAF, CHR 0xAF, CHR 0xEF, CHR 0xBC, CHR 0x9A]"

definition system_error_suffix :: string where \<comment> \<open>cannot be handled\<close>
  "system_error_suffix =
    [CHR 0x20, CHR 0xE6, CHR 0x97, CHR 0xA0, CHR 0xE6, CHR 0xB3, CHR 0x95, CHR 0xE5, CHR 0xA4,
     CHR 0x84, CHR 0xE7, CHR 0x90, CHR 0x86]"

definition questioning_announcement :: string where \<comment> \<open>entering the questioning stage\<close>
  "questioning_announcement =
    [CHR 0xF0, CHR 0x9F, CHR 0x93, CHR 0x9D, CHR 0x20, CHR 0xE7, CHR 0x8E, CHR 0xB0, CHR 0xE5,
     CHR 0x9C, CHR 0xA8, CHR 0xE8, CHR 0xBF, CHR 0x9B, CHR 0xE5, CHR 0x85, CHR 0xA5, CHR 0xE6,
     CHR 0x8F, CHR 0x90, CHR 0xE9, CHR 0x97, CHR 0xAE, CHR 0xE5, CHR 0x9B, CHR 0x9E, CHR 0xE7,
     CHR 0xAD, CHR 0x94, CHR 0xE9, CHR 0x98, CHR 0xB6, CHR 0xE6, CHR 0xAE, CHR 0xB5, CHR 0xEF,
     CHR 0xBC, CHR 0x8C, CHR 0xE6, CHR 0xAF, CHR 0x8F, CHR 0xE4, CHR 0xBD, CHR 0x8D, CHR 0xE4,
     CHR 0xB8, CHR 0x93, CHR 0xE5, CHR 0xAE, CHR 0xB6, CHR 0xE5, CHR 0xB0, CHR 0x86, CHR 0xE6,
     CHR 0x9C, CHR 0x89, CHR 0xE6, CHR 0x9C, CHR 0xBA, CHR 0xE4, CHR 0xBC, CHR 0x9A, CHR 0xE5,
     CHR 0x90, CHR 0x91, CHR 0xE5, CHR 0x85, CHR 0xB6, CHR 0xE4, CHR 0xBB, CHR 0x96, CHR 0xE4,
     CHR 0xB8, CHR 0x93, CHR 0xE5, CHR 0xAE, CHR 0xB6, CHR 0xE6, CHR 0x8F, CHR 0x90, CHR 0xE9,
     CHR 0x97, CHR 0xAE, CHR 0xE3, CHR 0x80, CHR 0x82]"

definition free_debate_announcement :: string where \<comment> \<open>entering the free debate stage\<close>
  "free_debate_announcement =
    [CHR 0xF0, CHR 0x9F, CHR 0x8E, CHR 0xAF, CHR 0x20, CHR 0xE7, CHR 0x8E, CHR 0xB0, CHR 0xE5,
     CHR 0x9C, CHR 0xA8, CHR 0xE8, CHR 0xBF, CHR 0x9B, CHR 0xE5, CHR 0x85, CHR 0xA5, CHR 0xE8,
     CHR 0x87, CHR 0xAA, CHR 0xE7, CHR 0x94, CHR 0xB1, CHR 0xE8, CHR 0xBE, CHR 0xA9, CHR 0xE8,
     CHR 0xAE, CHR 0xBA, CHR 0xE9, CHR 0x98, CHR 0xB6, CHR 0xE6, CHR 0xAE, CHR 0xB5, CHR 0xEF,
     CHR 0xBC, CHR 0x8C, CHR 0xE5, CHR 0x90, CHR 0x84, CHR 0xE4, CHR 0xBD, CHR 0x8D, CHR 0xE4,
     CHR 0xB8, CHR 0x93, CHR 0xE5, CHR 0xAE, CHR 0xB6, CHR 0xE5, CHR 0x8F, CHR 0xAF, CHR 0xE4,
     CHR 0xBB, CHR 0xA5, CHR 0xE5, CHR 0xB0, CHR 0xB1, CHR 0xE4, CHR 0xBA, CHR 0x89, CHR 0xE8,
     CHR 0xAE, CHR 0xAE, CHR 0xE8, CHR 0xA7, CHR 0x82, CHR 0xE7, CHR 0x82, CHR 0xB9, CHR 0xE5,
     CHR 0xB1, CHR 0x95, CHR 0xE5, CHR 0xBC, CHR 0x80, CHR 0xE6, CHR 0xB7, CHR 0xB1, CHR 0xE5,
     CHR 0x85, CHR 0xA5, CHR 0xE8, CHR 0xAE, CHR 0xA8, CHR 0xE8, CHR 0xAE, CHR 0xBA, CHR 0xE3,
     CHR 0x80, CHR 0x82]"

definition closing_announcement :: string where \<comment> \<open>entering the closing stage\<close>
  "closing_announcement =
    [CHR 0xF0, CHR 0x9F, CHR 0x8F, CHR 0x81, CHR 0x20, CHR 0xE7, CHR 0x8E, CHR 0xB0, CHR 0xE5,
     CHR 0x9C, CHR 0xA8, CHR 0xE8, CHR 0xBF, CHR 0x9B, CHR 0xE5, CHR 0x85, CHR 0xA5, CHR 0xE7,
     CHR 0xBB, CHR 0x93, CHR 0xE8, CHR 0xBE, CHR 0xA9, CHR 0xE7, CHR 0xBB, CHR 0xBC, CHR 0xE8,
     CHR 0xBF, CHR 0xB0, CHR 0xE9, CHR 0x98, CHR 0xB6, CHR 0xE6, CHR 0xAE, CHR 0xB5, CHR 0xEF,
     CHR 0xBC, CHR 0x8C, CHR 0xE5, CHR 0x90, CHR 0x84, CHR 0xE4, CHR 0xBD, CHR 0x8D, CHR 0xE4,
     CHR 0xB8, CHR 0x93, CHR 0xE5, CHR 0xAE, CHR 0xB6, CHR 0xE8, CHR 0xAF, CHR 0xB7, CHR 0xE5,
     CHR 0x8F, CHR 0x91, CHR 0xE8, CHR 0xA1, CHR 0xA8, CHR 0xE6, CHR 0x80, CHR 0xBB, CHR 0xE7,
     CHR 0xBB, CHR 0x93, CHR 0xE9, CHR 0x99, CHR 0x88, CHR 0xE8, CHR 0xAF, CHR 0x8D, CHR 0xE3,
     CHR 0x80, CHR 0x82]"

definition transition_prefix :: string where \<comment> \<open>switching to\<close>
  "transition_prefix =
    [CHR 0xE8, CHR 0xBD, CHR 0xAC, CHR 0xE6, CHR 0x8D, CHR 0xA2, CHR 0xE5, CHR 0x88, CHR 0xB0]"

definition transition_suffix :: string where \<comment> \<open>stage\<close>
  "transition_suffix =
    [CHR 0xE9, CHR 0x98, CHR 0xB6, CHR 0xE6, CHR 0xAE, CHR 0xB5]"

definition too_few_agents_text :: string where \<comment> \<open>at least 3 agents are needed for a debate\<close>
  "too_few_agents_text =
    [CHR 0xE8, CHR 0x87, CHR 0xB3, CHR 0xE5, CHR 0xB0, CHR 0x91, CHR 0xE9, CHR 0x9C, CHR 0x80,
     CHR 0xE8, CHR 0xA6, CHR 0x81, CHR 0x33, CHR 0xE4, CHR 0xB8, CHR 0xAA, CHR 0x41, CHR 0x67,
     CHR 0x65, CHR 0x6E, CHR 0x74, CHR 0xE5, CHR 0x8F, CHR 0x82, CHR 0xE4, CHR 0xB8, CHR 0x8E,
     CHR 0xE8, CHR 0xBE, CHR 0xA9, CHR 0xE8, CHR 0xAE, CHR 0xBA]"

definition too_many_agents_text :: string where \<comment> \<open>at most 6 agents are supported\<close>
  "too_many_agents_text =
    [CHR 0xE6, CHR 0x9C, CHR 0x80, CHR 0xE5, CHR 0xA4, CHR 0x9A, CHR 0xE6, CHR 0x94, CHR 0xAF,
     CHR 0xE6, CHR 0x8C, CHR 0x81, CHR 0x36, CHR 0xE4, CHR 0xB8, CHR 0xAA, CHR 0x41, CHR 0x67,
     CHR 0x65, CHR 0x6E, CHR 0x74, CHR 0xE5, CHR 0x8F, CHR 0x82, CHR 0xE4, CHR 0xB8, CHR 0x8E,
     CHR 0xE8, CHR 0xBE, CHR 0xA9, CHR 0xE8, CHR 0xAE, CHR 0xBA]"

definition unknown_agent_prefix :: string where \<comment> \<open>unknown agent:\<close>
  "unknown_agent_prefix =
    [CHR 0xE6, CHR 0x9C, CHR 0xAA, CHR 0xE7, CHR 0x9F, CHR 0xA5, CHR 0xE7, CHR 0x9A, CHR 0x84,
     CHR 0x41, CHR 0x67, CHR 0x65, CHR 0x6E, CHR 0x74, CHR 0x3A, CHR 0x20]"

subsection \<open>Python helpers\<close>

text \<open>
  The exceptions the modelled code can raise. \<open>KeyError\<close> carries the missing key, the
  other three carry their message. The messages of the exceptions the interpreter raises
  itself are worded as CPython 3.11 words them.
\<close>

datatype py_error =
    IndexError string
  | KeyError string
  | ValueError string
  | ZeroDivisionError string

text \<open>
  \<^verbatim>\<open>repr(s)\<close> of a string: single quotes, or double quotes when the string has a single
  quote and no double quote; the quote character and the backslash get a backslash in front,
  tab, line feed and carriage return are written as a backslash and \<open>t\<close>, \<open>n\<close>, \<open>r\<close>, and
  every other control character of the ASCII range as a backslash, \<open>x\<close> and two hexadecimal
  digits. The bytes of a character outside the ASCII
  range are kept, which is what Python does for every printable character; the
  non-printable ones outside ASCII, which Python escapes, are not told apart here.
\<close>

definition hex_digit :: "nat \<Rightarrow> char" where
  "hex_digit n = ''0123456789abcdef'' ! (n mod 16)"

definition repr_char :: "char \<Rightarrow> char \<Rightarrow> string" where
  "repr_char quote c =
     (if c = quote \<or> c = CHR 0x5C then [CHR 0x5C, c]
      else if c = CHR 0x09 then [CHR 0x5C, CHR ''t'']
      else if c = CHR 0x0A then [CHR 0x5C, CHR ''n'']
      else if c = CHR 0x0D then [CHR 0x5C, CHR ''r'']
      else if (of_char c :: nat) < 32 \<or> c = CHR 0x7F
        then [CHR 0x5C, CHR ''x'', hex_digit (of_char c div 16), hex_digit (of_char c)]
      else [c])"

definition py_repr :: "string \<Rightarrow> string" where
  "py_repr s =
     (let quote = (if CHR 0x27 \<in> set s \<and> CHR 0x22 \<notin> set s then CHR 0x22 else CHR 0x27)
      in [quote] @ concat (map (repr_char quote) s) @ [quote])"

text \<open>\<^verbatim>\<open>str(e)\<close>: the message, and for a KeyError the \<^verbatim>\<open>repr\<close> of the key.\<close>

fun error_text :: "py_error \<Rightarrow> string" where
  "error_text (IndexError message) = message"
| "error_text (KeyError k) = py_repr k"
| "error_text (ValueError message) = message"
| "error_text (ZeroDivisionError message) = message"

text \<open>
  \<^verbatim>\<open>xs[i]\<close>: an index from 0 up to the length reads from the front, one from
  \<open>-1\<close> down to minus the length reads from the back, anything else raises IndexError.
\<close>

definition py_index :: "'a list \<Rightarrow> int \<Rightarrow> py_error + 'a" where
  "py_index xs i =
     (if 0 \<le> i \<and> i < int (length xs) then Inr (xs ! nat i)
      else if i < 0 \<and> - int (length xs) \<le> i then Inr (xs ! nat (int (length xs) + i))
      else Inl (IndexError ''list index out of range''))"

text \<open>\<^verbatim>\<open>min(xs)\<close>: raises ValueError on an empty sequence.\<close>

definition py_min :: "int list \<Rightarrow> py_error + int" where
  "py_min xs =
     (case xs of
        [] \<Rightarrow> Inl (ValueError ''min() arg is an empty sequence'')
      | y # ys \<Rightarrow> Inr (fold min ys y))"

text \<open>
  \<^verbatim>\<open>random.choice(xs)\<close>: raises IndexError on an empty sequence, otherwise returns
  \<^verbatim>\<open>xs[k]\<close> for an index \<open>k\<close> below \<^verbatim>\<open>len(xs)\<close> drawn by the generator. The raw draw
  \<open>r\<close> comes from the environment and is reduced modulo the length.
\<close>

definition random_choice :: "'a list \<Rightarrow> nat \<Rightarrow> py_error + 'a" where
  "random_choice xs r =
     (if xs = [] then Inl (IndexError ''Cannot choose from an empty sequence'')
      else Inr (xs ! (r mod length xs)))"

text \<open>
  \<^verbatim>\<open>s.startswith(p)\<close>. On UTF-8 texts a prefix of the bytes is a prefix of the
  characters.
\<close>

definition startswith :: "string \<Rightarrow> string \<Rightarrow> bool" where
  "startswith s p = (take (length p) s = p)"

text \<open>
  \<^verbatim>\<open>s.strip()\<close> removes, from both ends, every character for which \<^verbatim>\<open>str.isspace\<close>
  holds. These are U+0009 to U+000D, U+001C to U+0020, U+0085, U+00A0, U+1680, U+2000 to
  U+200A, U+2028, U+2029, U+202F, U+205F and U+3000; in a UTF-8 text each appears as its
  encoding, listed here. No encoding is the start of another one, and none is the end of
  the encoding of another character, so removing encodings at the two ends of the bytes
  removes exactly these characters.
\<close>

definition white_space :: "string list" where
  "white_space =
     [[CHR 0x09], [CHR 0x0A], [CHR 0x0B], [CHR 0x0C], [CHR 0x0D],
      [CHR 0x1C], [CHR 0x1D], [CHR 0x1E], [CHR 0x1F], [CHR 0x20],
      [CHR 0xC2, CHR 0x85], [CHR 0xC2, CHR 0xA0],
      [CHR 0xE1, CHR 0x9A, CHR 0x80],
      [CHR 0xE2, CHR 0x80, CHR 0x80], [CHR 0xE2, CHR 0x80, CHR 0x81],
      [CHR 0xE2, CHR 0x80, CHR 0x82], [CHR 0xE2, CHR 0x80, CHR 0x83],
      [CHR 0xE2, CHR 0x80, CHR 0x84], [CHR 0xE2, CHR 0x80, CHR 0x85],
      [CHR 0xE2, CHR 0x80, CHR 0x86], [CHR 0xE2, CHR 0x80, CHR 0x87],
      [CHR 0xE2, CHR 0x80, CHR 0x88], [CHR 0xE2, CHR 0x80, CHR 0x89],
      [CHR 0xE2, CHR 0x80, CHR 0x8A],
      [CHR 0xE2, CHR 0x80, CHR 0xA8], [CHR 0xE2, CHR 0x80, CHR 0xA9],
      [CHR 0xE2, CHR 0x80, CHR 0xAF],
      [CHR 0xE2, CHR 0x81, CHR 0x9F],
      [CHR 0xE3, CHR 0x80, CHR 0x80]]"

text \<open>The number of bytes of the white-space character a text starts with, or 0.\<close>

definition leading_space :: "string list \<Rightarrow> string \<Rightarrow> nat" where
  "leading_space spaces s =
     (case filter (startswith s) spaces of [] \<Rightarrow> 0 | w # others \<Rightarrow> length w)"

fun lstrip :: "string list \<Rightarrow> string \<Rightarrow> string" where
  "lstrip spaces [] = []"
| "lstrip spaces (c # cs) =
     (if leading_space spaces (c # cs) = 0 then c # cs
      else lstrip spaces (drop (leading_space spaces (c # cs) - 1) cs))"

text \<open>The right end is stripped on the reversed text, against the reversed encodings.\<close>

definition strip :: "string \<Rightarrow> string" where
  "strip s = rev (lstrip (map rev white_space) (rev (lstrip white_space s)))"

text \<open>
  A dictionary is an association list in insertion order: assigning to a key that is
  present replaces its value in place, assigning to a new key appends it.
\<close>

type_synonym 'v dict = "(string \<times> 'v) list"

fun dict_set :: "'v dict \<Rightarrow> string \<Rightarrow> 'v \<Rightarrow> 'v dict" where
  "dict_set [] k v = [(k, v)]"
| "dict_set ((a, c) # d) k v = (if a = k then (a, v) # d else (a, c) # dict_set d k v)"

text \<open>\<^verbatim>\<open>d[k]\<close>: raises KeyError when the key is missing.\<close>

fun dict_get :: "'v dict \<Rightarrow> string \<Rightarrow> py_error + 'v" where
  "dict_get [] k = Inl (KeyError k)"
| "dict_get ((a, c) # d) k = (if a = k then Inr c else dict_get d k)"

text \<open>\<^verbatim>\<open>{agent: 0 for agent in active_agents}\<close>\<close>

definition zero_counts :: "string list \<Rightarrow> int dict" where
  "zero_counts agents = fold (\<lambda>agent d. dict_set d agent 0) agents []"

text \<open>\<^verbatim>\<open>d[k] += 1\<close>\<close>

definition dict_incr :: "int dict \<Rightarrow> string \<Rightarrow> py_error + int dict" where
  "dict_incr d k = (case dict_get d k of Inl e \<Rightarrow> Inl e | Inr c \<Rightarrow> Inr (dict_set d k (c + 1)))"

subsection \<open>The participant registry\<close>

text \<open>
  \<^verbatim>\<open>AVAILABLE_ROLES\<close>, restricted to the attribute the control logic reads: the display
  name. The other attributes (role, focus, bio, ...) only feed the prompt of the inference
  collaborator.
\<close>

definition AVAILABLE_ROLES :: "string \<Rightarrow> string option" where
  "AVAILABLE_ROLES = map_of
     [(''environmentalist'', name_environmentalist),
      (''economist'', name_economist),
      (''policy_maker'', name_policy_maker),
      (''tech_expert'', name_tech_expert),
      (''sociologist'', name_sociologist),
      (''ethicist'', name_ethicist)]"

subsection \<open>The debate state\<close>

record qa_record =
  questioner :: string
  target :: string
  question :: string
  answer :: string

text \<open>
  \<^verbatim>\<open>MultiAgentDebateState\<close>. The fields the modelled functions never read or write
  (\<^verbatim>\<open>current_agent_index\<close>, \<^verbatim>\<open>rag_sources\<close>, \<^verbatim>\<open>collected_references\<close>,
  \<^verbatim>\<open>agent_positions\<close>, \<^verbatim>\<open>key_points_raised\<close>, \<^verbatim>\<open>controversial_points\<close>) are left out.
  Every run starts from a dictionary that holds all keys, so the defaults of
  \<^verbatim>\<open>state.get(key, default)\<close> never apply. \<open>messages\<close> holds the content of each message.

  \<open>retrieval_calls\<close> is not a field of the source: it lists the calls of the retrieval
  collaborator that the nodes of the graph have made since the graph was started (the
  participant key of each invocation, oldest first), kept so that statements about how
  often the collaborator is invoked can be made. The calls the application makes before
  it starts the graph are not in it; \<open>debate_calls\<close> below puts the two together.
\<close>

record state =
  main_topic :: string
  current_stage :: string
  stage_progress :: int
  max_rounds :: int
  active_agents :: "string list"
  total_messages :: int
  rag_enabled :: bool
  max_refs_per_agent :: int
  max_results_per_source :: int
  agent_paper_cache :: "string dict"
  first_round_rag_completed :: "string list"
  questions_asked :: "qa_record list"
  current_questioner :: string
  current_target :: string
  waiting_for_answer :: bool
  opening_statements :: "string dict"
  closing_statements :: "string dict"
  messages :: "string list"
  retrieval_calls :: "string list"

text \<open>\<^verbatim>\<open>END\<close> of the graph library.\<close>

definition END :: string where
  "END = ''__end__''"

subsection \<open>Fair rotation: \<^verbatim>\<open>select_next_questioner_and_target\<close>\<close>

text \<open>
  The loop \<^verbatim>\<open>for qa in questions_asked\<close> over the two counters; it stops at the first
  record whose questioner or target is not a key.
\<close>

fun count_loop :: "qa_record list \<Rightarrow> int dict \<Rightarrow> int dict \<Rightarrow> py_error + int dict \<times> int dict" where
  "count_loop [] question_count target_count = Inr (question_count, target_count)"
| "count_loop (qa # rest) question_count target_count =
     (case dict_incr question_count (questioner qa) of
        Inl e \<Rightarrow> Inl e
      | Inr question_count' \<Rightarrow>
          (case dict_incr target_count (target qa) of
             Inl e \<Rightarrow> Inl e
           | Inr target_count' \<Rightarrow> count_loop rest question_count' target_count'))"

text \<open>\<^verbatim>\<open>target_count[agent] for agent in available_targets\<close>\<close>

fun lookup_all :: "int dict \<Rightarrow> string list \<Rightarrow> py_error + int list" where
  "lookup_all d [] = Inr []"
| "lookup_all d (a # as) =
     (case dict_get d a of
        Inl e \<Rightarrow> Inl e
      | Inr c \<Rightarrow> (case lookup_all d as of Inl e \<Rightarrow> Inl e | Inr cs \<Rightarrow> Inr (c # cs)))"

text \<open>The pair \<open>picks\<close> holds the raw draws of the two calls of \<^verbatim>\<open>random.choice\<close>.\<close>

definition select_next_questioner_and_target ::
  "string list \<Rightarrow> qa_record list \<Rightarrow> nat \<times> nat \<Rightarrow> py_error + string \<times> string" where
  "select_next_questioner_and_target agents asked picks =
     (case count_loop asked (zero_counts agents) (zero_counts agents) of
        Inl e \<Rightarrow> Inl e
      | Inr (question_count, target_count) \<Rightarrow>
     (case py_min (map snd question_count) of
        Inl e \<Rightarrow> Inl e
      | Inr min_questions \<Rightarrow>
     (let candidates_questioner =
            map fst (filter (\<lambda>(agent, count). count = min_questions) question_count)
      in case random_choice candidates_questioner (fst picks) of
        Inl e \<Rightarrow> Inl e
      | Inr chosen_questioner \<Rightarrow>
     (let available_targets = filter (\<lambda>agent. agent \<noteq> chosen_questioner) agents
      in case lookup_all target_count available_targets of
        Inl e \<Rightarrow> Inl e
      | Inr target_values \<Rightarrow>
     (case py_min target_values of
        Inl e \<Rightarrow> Inl e
      | Inr min_targets \<Rightarrow>
     (let candidates_target =
            filter (\<lambda>agent. dict_get target_count agent = Inr min_targets) available_targets
      in case random_choice candidates_target (snd picks) of
        Inl e \<Rightarrow> Inl e
      | Inr chosen_target \<Rightarrow> Inr (chosen_questioner, chosen_target)))))))"

subsection \<open>The scheduler: \<^verbatim>\<open>determine_next_node\<close>\<close>

definition determine_next_node :: "nat \<times> nat \<Rightarrow> state \<Rightarrow> py_error + string" where
  "determine_next_node picks s =
     (if current_stage s = ''opening'' then
        (if stage_progress s < int (length (active_agents s))
         then py_index (active_agents s) (stage_progress s)
         else Inr ''questioning'')
      else if current_stage s = ''questioning'' then
        (if waiting_for_answer s then
           (if current_target s \<noteq> [] \<and> current_target s \<in> set (active_agents s)
            then Inr (current_target s)
            else Inr ''free_debate'')
         else
           (if length (questions_asked s) < length (active_agents s) then
              (case select_next_questioner_and_target (active_agents s) (questions_asked s) picks of
                 Inl e \<Rightarrow> Inl e
               | Inr (chosen_questioner, chosen_target) \<Rightarrow> Inr chosen_questioner)
            else Inr ''free_debate''))
      else if current_stage s = ''free_debate'' then
        (if active_agents s = []
         then Inl (ZeroDivisionError ''integer division or modulo by zero'')
         else
           (let current_round = stage_progress s div int (length (active_agents s)) + 1
            in if current_round \<le> max_rounds s
               then py_index (active_agents s)
                      (stage_progress s mod int (length (active_agents s)))
               else Inr ''closing''))
      else if current_stage s = ''closing'' then
        (if stage_progress s < int (length (active_agents s))
         then py_index (active_agents s) (stage_progress s)
         else Inr END)
      else Inr END)"


subsection \<open>The environment of one node execution\<close>

text \<open>
  What the retrieval collaborator answers when it is called: a text (a call that returns
  \<^verbatim>\<open>None\<close> is the empty text: both are falsy), or an exception.
\<close>

datatype rag_result = RagReturns string | RagRaises

text \<open>
  What \<^verbatim>\<open>pipe.invoke\<close> answers: the generated text, or an exception with its message
  \<^verbatim>\<open>str(e)\<close>.
\<close>

datatype infer_result = InferReturns string | InferRaises string

text \<open>
  One node execution calls the selection at most three times (in the scheduler call at the
  start of \<^verbatim>\<open>agent_node\<close>, in \<^verbatim>\<open>_generate_question\<close>, and in the scheduler call on
  the updated state), each with fresh draws, and each collaborator at most once.
\<close>

record env =
  route_picks :: "nat \<times> nat"
  question_picks :: "nat \<times> nat"
  next_picks :: "nat \<times> nat"
  retrieved :: rag_result
  inferred :: infer_result

text \<open>
  The module-level globals \<^verbatim>\<open>deepseek\<close> and \<^verbatim>\<open>rag_module\<close>, set once at import:
  whether each is an initialised client or \<^verbatim>\<open>None\<close>.
\<close>

record globals =
  deepseek_ready :: bool
  rag_module_ready :: bool


subsection \<open>State updates\<close>

text \<open>
  A node returns a dictionary with the keys it changes. The runtime overwrites those keys
  in the state; \<^verbatim>\<open>messages\<close> is the exception: the returned messages are appended.
\<close>

record update =
  u_messages :: "string list"
  u_total_messages :: "int option"
  u_stage_progress :: "int option"
  u_current_stage :: "string option"
  u_questions_asked :: "qa_record list option"
  u_current_questioner :: "string option"
  u_current_target :: "string option"
  u_waiting_for_answer :: "bool option"
  u_opening_statements :: "string dict option"
  u_closing_statements :: "string dict option"
  u_agent_paper_cache :: "string dict option"
  u_first_round_rag_completed :: "string list option"

definition empty_update :: update where
  "empty_update =
     \<lparr>u_messages = [], u_total_messages = None, u_stage_progress = None,
      u_current_stage = None, u_questions_asked = None, u_current_questioner = None,
      u_current_target = None, u_waiting_for_answer = None, u_opening_statements = None,
      u_closing_statements = None, u_agent_paper_cache = None,
      u_first_round_rag_completed = None\<rparr>"

definition overwrite :: "'a option \<Rightarrow> 'a \<Rightarrow> 'a" where
  "overwrite new old = (case new of None \<Rightarrow> old | Some v \<Rightarrow> v)"

text \<open>The keys other than \<^verbatim>\<open>messages\<close>.\<close>

definition overwrite_keys :: "update \<Rightarrow> state \<Rightarrow> state" where
  "overwrite_keys u s =
     s\<lparr>total_messages := overwrite (u_total_messages u) (total_messages s),
       stage_progress := overwrite (u_stage_progress u) (stage_progress s),
       current_stage := overwrite (u_current_stage u) (current_stage s),
       questions_asked := overwrite (u_questions_asked u) (questions_asked s),
       current_questioner := overwrite (u_current_questioner u) (current_questioner s),
       current_target := overwrite (u_current_target u) (current_target s),
       waiting_for_answer := overwrite (u_waiting_for_answer u) (waiting_for_answer s),
       opening_statements := overwrite (u_opening_statements u) (opening_statements s),
       closing_statements := overwrite (u_closing_statements u) (closing_statements s),
       agent_paper_cache := overwrite (u_agent_paper_cache u) (agent_paper_cache s),
       first_round_rag_completed :=
         overwrite (u_first_round_rag_completed u) (first_round_rag_completed s)\<rparr>"

text \<open>\<^verbatim>\<open>{**state, **update_data}\<close>: every key of the update overwrites.\<close>

definition merged :: "state \<Rightarrow> update \<Rightarrow> state" where
  "merged s u = (overwrite_keys u s)\<lparr>messages := u_messages u\<rparr>"

text \<open>What the runtime does with a returned update.\<close>

definition apply_update :: "update \<Rightarrow> state \<Rightarrow> state" where
  "apply_update u s = (overwrite_keys u s)\<lparr>messages := messages s @ u_messages u\<rparr>"

text \<open>The update every turn has: one message, and both counters incremented.\<close>

definition turn_update :: "state \<Rightarrow> string \<Rightarrow> update" where
  "turn_update s content =
     empty_update\<lparr>u_messages := [content],
                  u_total_messages := Some (total_messages s + 1),
                  u_stage_progress := Some (stage_progress s + 1)\<rparr>"

subsection \<open>The context cache: \<^verbatim>\<open>get_rag_context_for_agent\<close>\<close>

text \<open>
  The function returns the context text. It also changes the dictionary and the list that
  the state holds (\<^verbatim>\<open>agent_paper_cache[agent_key] = context\<close> and
  \<^verbatim>\<open>first_round_rag_completed.append(agent_key)\<close> act on the objects of the state), so
  the model returns the state as well. The lookup of the display name for the log line
  comes before the \<^verbatim>\<open>try\<close> block and raises KeyError for an unknown key.
\<close>

definition get_rag_context_for_agent ::
  "globals \<Rightarrow> env \<Rightarrow> string \<Rightarrow> string \<Rightarrow> state \<Rightarrow> py_error + string \<times> state" where
  "get_rag_context_for_agent g e agent_key debate_topic s =
     (if \<not> rag_enabled s \<or> \<not> rag_module_ready g then Inr (rag_disabled_text, s)
      else case AVAILABLE_ROLES agent_key of
        None \<Rightarrow> Inl (KeyError agent_key)
      | Some agent_name \<Rightarrow>
          if current_stage s = ''opening'' \<and> agent_key \<notin> set (first_round_rag_completed s)
          then
            (let s1 = s\<lparr>retrieval_calls := retrieval_calls s @ [agent_key]\<rparr>
             in case retrieved e of
                  RagRaises \<Rightarrow> Inr (rag_failure_text, s1)
                | RagReturns context \<Rightarrow>
                    if context \<noteq> [] \<and> strip context \<noteq> no_material_marker
                    then Inr (context,
                           s1\<lparr>agent_paper_cache := dict_set (agent_paper_cache s1) agent_key context,
                              first_round_rag_completed :=
                                first_round_rag_completed s1 @ [agent_key]\<rparr>)
                    else Inr (nothing_found_text, s1))
          else
            (case map_of (agent_paper_cache s) agent_key of
               Some cached_context \<Rightarrow> Inr (cached_context, s)
             | None \<Rightarrow> Inr (nothing_found_text, s)))"

subsection \<open>The texts of the prompt\<close>

text \<open>
  Before it calls the inference collaborator a generator assembles texts for the prompt.
  They are built from the display names below and from attributes and message contents
  that only the collaborator reads, so the model keeps the names; what matters to the
  control flow is that \<^verbatim>\<open>AVAILABLE_ROLES[key]\<close> raises KeyError at the first key that is
  not in the registry.
\<close>

fun lookup_names :: "string list \<Rightarrow> py_error + string list" where
  "lookup_names [] = Inr []"
| "lookup_names (k # ks) =
     (case AVAILABLE_ROLES k of
        None \<Rightarrow> Inl (KeyError k)
      | Some agent_name \<Rightarrow>
          (case lookup_names ks of Inl err \<Rightarrow> Inl err | Inr names \<Rightarrow> Inr (agent_name # names)))"

text \<open>\<^verbatim>\<open>get_other_participants\<close>: one line for every participant but the current one.\<close>

definition get_other_participants :: "string list \<Rightarrow> string \<Rightarrow> py_error + string list" where
  "get_other_participants agents current_agent =
     lookup_names (filter (\<lambda>agent_key. agent_key \<noteq> current_agent) agents)"

text \<open>
  \<^verbatim>\<open>format_opening_statements\<close>: nothing to look up for an empty dictionary, otherwise
  one entry for every participant that has a statement.
\<close>

definition format_opening_statements :: "string dict \<Rightarrow> string list \<Rightarrow> py_error + string list" where
  "format_opening_statements statements agents =
     (if statements = [] then Inr []
      else lookup_names (filter (\<lambda>agent_key. agent_key \<in> set (map fst statements)) agents))"

text \<open>\<^verbatim>\<open>format_qa_summary\<close>: questioner and target of every record, in order.\<close>

definition format_qa_summary :: "qa_record list \<Rightarrow> py_error + string list" where
  "format_qa_summary asked =
     (if asked = [] then Inr []
      else lookup_names (concat (map (\<lambda>qa. [questioner qa, target qa]) asked)))"

text \<open>
  \<^verbatim>\<open>format_agent_history\<close>: for each of the last six messages (all of them when there
  are at most six) the participant at the message's position modulo the number of
  participants.
\<close>

definition format_agent_history :: "string list \<Rightarrow> string list \<Rightarrow> py_error + string list" where
  "format_agent_history all_messages agents =
     (if all_messages = [] then Inr []
      else if agents = [] then Inl (ZeroDivisionError ''integer modulo by zero'')
      else lookup_names
             (map (\<lambda>global_msg_idx. agents ! (global_msg_idx mod length agents))
                [length all_messages - min 6 (length all_messages) ..< length all_messages]))"

subsection \<open>The turn generators\<close>

text \<open>
  \<^verbatim>\<open>response.strip()\<close>, then the display name is put in front unless the text starts
  with it.
\<close>

definition finish_response :: "string \<Rightarrow> string \<Rightarrow> string" where
  "finish_response agent_name raw =
     (let response = strip raw
      in if startswith response agent_name then response else agent_name @ '': '' @ response)"

text \<open>
  A generator returns the state (with the changes made in place) and the update; when it
  raises, the state and the message of the exception. The steps of each generator are in
  the order of the source: the texts of the prompt, the context lookup and the call of
  \<^verbatim>\<open>pipe.invoke\<close>. The loop over the other participants in
  \<^verbatim>\<open>_generate_closing_statement\<close> looks up the same keys as
  \<^verbatim>\<open>get_other_participants\<close>.
\<close>

type_synonym generated = "(state \<times> string) + (state \<times> update)"

definition generate_opening_statement :: "globals \<Rightarrow> env \<Rightarrow> state \<Rightarrow> string \<Rightarrow> generated" where
  "generate_opening_statement g e s agent_key =
     (case AVAILABLE_ROLES agent_key of
        None \<Rightarrow> Inl (s, error_text (KeyError agent_key))
      | Some agent_name \<Rightarrow>
     (case get_other_participants (active_agents s) agent_key of
        Inl err \<Rightarrow> Inl (s, error_text err)
      | Inr other_participants \<Rightarrow>
     (case get_rag_context_for_agent g e agent_key (main_topic s) s of
        Inl err \<Rightarrow> Inl (s, error_text err)
      | Inr (rag_context, s1) \<Rightarrow>
     (case inferred e of
        InferRaises msg \<Rightarrow> Inl (s1, msg)
      | InferReturns raw \<Rightarrow>
          (let response = finish_response agent_name raw;
               update_data = (turn_update s1 response)
                 \<lparr>u_opening_statements := Some (dict_set (opening_statements s1) agent_key response)\<rparr>
           in if agent_key \<in> set (first_round_rag_completed s1)
              then Inr (s1, update_data
                     \<lparr>u_agent_paper_cache := Some (agent_paper_cache s1),
                      u_first_round_rag_completed := Some (first_round_rag_completed s1)\<rparr>)
              else Inr (s1, update_data))))))"

definition generate_question :: "globals \<Rightarrow> env \<Rightarrow> state \<Rightarrow> string \<Rightarrow> generated" where
  "generate_question g e s agent_key =
     (case AVAILABLE_ROLES agent_key of
        None \<Rightarrow> Inl (s, error_text (KeyError agent_key))
      | Some agent_name \<Rightarrow>
     (case select_next_questioner_and_target (active_agents s) (questions_asked s)
             (question_picks e) of
        Inl err \<Rightarrow> Inl (s, error_text err)
      | Inr (chosen_questioner, chosen_target) \<Rightarrow>
          if agent_key \<noteq> chosen_questioner
          then Inr (s, turn_update s (agent_name @ not_my_question_time_text))
          else
     (case AVAILABLE_ROLES chosen_target of
        None \<Rightarrow> Inl (s, error_text (KeyError chosen_target))
      | Some target_name \<Rightarrow>
     (case format_opening_statements (opening_statements s) (active_agents s) of
        Inl err \<Rightarrow> Inl (s, error_text err)
      | Inr opening_statements_text \<Rightarrow>
     (case get_other_participants (active_agents s) agent_key of
        Inl err \<Rightarrow> Inl (s, error_text err)
      | Inr other_participants \<Rightarrow>
     (case get_rag_context_for_agent g e agent_key (main_topic s) s of
        Inl err \<Rightarrow> Inl (s, error_text err)
      | Inr (rag_context, s1) \<Rightarrow>
     (case inferred e of
        InferRaises msg \<Rightarrow> Inl (s1, msg)
      | InferReturns raw \<Rightarrow>
          (let response = finish_response agent_name raw;
               new_questions = questions_asked s1 @
                 [\<lparr>questioner = agent_key, target = chosen_target,
                   question = response, answer = ''''\<rparr>]
           in Inr (s1, (turn_update s1 response)
                 \<lparr>u_questions_asked := Some new_questions,
                  u_current_questioner := Some agent_key,
                  u_current_target := Some chosen_target,
                  u_waiting_for_answer := Some True\<rparr>)))))))))"

text \<open>
  \<^verbatim>\<open>updated_questions\<close> is a shallow copy, so writing the answer into its last record
  writes it into the record the state holds.
\<close>

definition generate_answer :: "globals \<Rightarrow> env \<Rightarrow> state \<Rightarrow> string \<Rightarrow> generated" where
  "generate_answer g e s agent_key =
     (case AVAILABLE_ROLES agent_key of
        None \<Rightarrow> Inl (s, error_text (KeyError agent_key))
      | Some agent_name \<Rightarrow>
          if questions_asked s = []
          then Inr (s, turn_update s (agent_name @ no_question_found_text))
          else
     (let latest_question = last (questions_asked s)
      in case AVAILABLE_ROLES (questioner latest_question) of
        None \<Rightarrow> Inl (s, error_text (KeyError (questioner latest_question)))
      | Some questioner_name \<Rightarrow>
     (case format_opening_statements (opening_statements s) (active_agents s) of
        Inl err \<Rightarrow> Inl (s, error_text err)
      | Inr opening_statements_text \<Rightarrow>
     (case get_other_participants (active_agents s) agent_key of
        Inl err \<Rightarrow> Inl (s, error_text err)
      | Inr other_participants \<Rightarrow>
     (case get_rag_context_for_agent g e agent_key (main_topic s) s of
        Inl err \<Rightarrow> Inl (s, error_text err)
      | Inr (rag_context, s1) \<Rightarrow>
     (case inferred e of
        InferRaises msg \<Rightarrow> Inl (s1, msg)
      | InferReturns raw \<Rightarrow>
          (let response = finish_response agent_name raw;
               updated_questions = butlast (questions_asked s1) @
                 [(last (questions_asked s1))\<lparr>answer := response\<rparr>];
               s2 = s1\<lparr>questions_asked := updated_questions\<rparr>
           in Inr (s2, (turn_update s2 response)
                 \<lparr>u_questions_asked := Some updated_questions,
                  u_waiting_for_answer := Some False,
                  u_current_questioner := Some '''',
                  u_current_target := Some ''''\<rparr>))))))))"

definition generate_free_debate_response ::
  "globals \<Rightarrow> env \<Rightarrow> state \<Rightarrow> string \<Rightarrow> generated" where
  "generate_free_debate_response g e s agent_key =
     (case AVAILABLE_ROLES agent_key of
        None \<Rightarrow> Inl (s, error_text (KeyError agent_key))
      | Some agent_name \<Rightarrow>
          if active_agents s = []
          then Inl (s, error_text (ZeroDivisionError ''integer division or modulo by zero''))
          else
     (case format_agent_history (messages s) (active_agents s) of
        Inl err \<Rightarrow> Inl (s, error_text err)
      | Inr history \<Rightarrow>
     (case get_other_participants (active_agents s) agent_key of
        Inl err \<Rightarrow> Inl (s, error_text err)
      | Inr other_participants \<Rightarrow>
     (case get_rag_context_for_agent g e agent_key (main_topic s) s of
        Inl err \<Rightarrow> Inl (s, error_text err)
      | Inr (rag_context, s1) \<Rightarrow>
     (case format_opening_statements (opening_statements s1) (active_agents s1) of
        Inl err \<Rightarrow> Inl (s1, error_text err)
      | Inr opening_summary \<Rightarrow>
     (case format_qa_summary (questions_asked s1) of
        Inl err \<Rightarrow> Inl (s1, error_text err)
      | Inr qa_summary \<Rightarrow>
     (case inferred e of
        InferRaises msg \<Rightarrow> Inl (s1, msg)
      | InferReturns raw \<Rightarrow>
          Inr (s1, turn_update s1 (finish_response agent_name raw)))))))))"

definition generate_closing_statement :: "globals \<Rightarrow> env \<Rightarrow> state \<Rightarrow> string \<Rightarrow> generated" where
  "generate_closing_statement g e s agent_key =
     (case AVAILABLE_ROLES agent_key of
        None \<Rightarrow> Inl (s, error_text (KeyError agent_key))
      | Some agent_name \<Rightarrow>
     (case get_rag_context_for_agent g e agent_key (main_topic s) s of
        Inl err \<Rightarrow> Inl (s, error_text err)
      | Inr (rag_context, s1) \<Rightarrow>
     (case get_other_participants (active_agents s1) agent_key of
        Inl err \<Rightarrow> Inl (s1, error_text err)
      | Inr others_positions \<Rightarrow>
     (case inferred e of
        InferRaises msg \<Rightarrow> Inl (s1, msg)
      | InferReturns raw \<Rightarrow>
          (let response = finish_response agent_name raw
           in Inr (s1, (turn_update s1 response)
                 \<lparr>u_closing_statements :=
                    Some (dict_set (closing_statements s1) agent_key response)\<rparr>))))))"

text \<open>
  \<^verbatim>\<open>_generate_agent_response\<close>. Every path builds its message from
  \<^verbatim>\<open>AVAILABLE_ROLES[agent_key]\<close>, the handler of the \<^verbatim>\<open>try\<close> block included, so an
  unknown key always ends in KeyError; for a known key every exception of a generator is
  turned into the apology turn.
\<close>

definition generate_agent_response ::
  "globals \<Rightarrow> env \<Rightarrow> state \<Rightarrow> string \<Rightarrow> py_error + state \<times> update" where
  "generate_agent_response g e s agent_key =
     (case AVAILABLE_ROLES agent_key of
        None \<Rightarrow> Inl (KeyError agent_key)
      | Some agent_name \<Rightarrow>
          if \<not> deepseek_ready g
          then Inr (s, turn_update s (agent_name @ not_initialised_text))
          else
            (case
               (if current_stage s = ''opening'' then generate_opening_statement g e s agent_key
                else if current_stage s = ''questioning'' then
                  (if waiting_for_answer s \<and> current_target s = agent_key
                   then generate_answer g e s agent_key
                   else generate_question g e s agent_key)
                else if current_stage s = ''free_debate''
                  then generate_free_debate_response g e s agent_key
                else if current_stage s = ''closing''
                  then generate_closing_statement g e s agent_key
                else Inr (s, turn_update s (agent_name @ unknown_stage_text)))
             of
               Inl (s1, msg) \<Rightarrow> Inr (s1, turn_update s1 (agent_name @ cannot_speak_text @ msg))
             | Inr result \<Rightarrow> Inr result))"

subsection \<open>The nodes of the graph\<close>

definition stage_message :: "string \<Rightarrow> string" where
  "stage_message target_stage =
     (if target_stage = ''questioning'' then questioning_announcement
      else if target_stage = ''free_debate'' then free_debate_announcement
      else if target_stage = ''closing'' then closing_announcement
      else transition_prefix @ target_stage @ transition_suffix)"

text \<open>
  A node returns \<^verbatim>\<open>Command(update=..., goto=...)\<close>; with the state as the node leaves it,
  that is a triple here.
\<close>

type_synonym command = "state \<times> update \<times> string"

text \<open>The \<^verbatim>\<open>update_data\<close> of \<^verbatim>\<open>handle_stage_transition\<close>.\<close>

definition transition_update :: "string \<Rightarrow> update" where
  "transition_update target_stage =
     (let update_data = empty_update
            \<lparr>u_current_stage := Some target_stage,
             u_stage_progress := Some 0,
             u_messages := [stage_message target_stage]\<rparr>
      in if target_stage = ''questioning''
         then update_data
                \<lparr>u_questions_asked := Some [],
                 u_current_questioner := Some [],
                 u_current_target := Some [],
                 u_waiting_for_answer := Some False\<rparr>
         else update_data)"

definition handle_stage_transition :: "env \<Rightarrow> state \<Rightarrow> string \<Rightarrow> string \<Rightarrow> command" where
  "handle_stage_transition e s target_stage current_agent =
     (let update_data = transition_update target_stage
      in case determine_next_node (next_picks e) (merged s update_data) of
           Inl err \<Rightarrow> (s, empty_update, END)
         | Inr next_node \<Rightarrow> (s, update_data, next_node))"

text \<open>The update of the outermost handler of \<^verbatim>\<open>agent_node\<close>.\<close>

definition safe_update :: "state \<Rightarrow> string \<Rightarrow> update" where
  "safe_update s agent_key = turn_update s (system_error_prefix @ agent_key @ system_error_suffix)"

text \<open>
  The handler of the inner \<^verbatim>\<open>try\<close> block builds its message from
  \<^verbatim>\<open>AVAILABLE_ROLES[agent_key]\<close>; for an unknown key that raises again and the outer
  handler takes over.
\<close>

definition error_command :: "state \<Rightarrow> string \<Rightarrow> command" where
  "error_command s agent_key =
     (case AVAILABLE_ROLES agent_key of
        None \<Rightarrow> (s, safe_update s agent_key, END)
      | Some agent_name \<Rightarrow> (s, turn_update s (agent_name @ technical_problem_text), END))"

text \<open>
  \<^verbatim>\<open>agent_node\<close> of \<^verbatim>\<open>create_agent_node_function(agent_key)\<close>. The test whether
  \<^verbatim>\<open>update_data\<close> is empty or lacks \<^verbatim>\<open>messages\<close> never holds, every update of
  \<^verbatim>\<open>_generate_agent_response\<close> having a message, and has no branch here.
\<close>

definition agent_node :: "globals \<Rightarrow> env \<Rightarrow> string \<Rightarrow> state \<Rightarrow> command" where
  "agent_node g e agent_key s =
     (case determine_next_node (route_picks e) s of
        Inl err \<Rightarrow> (s, safe_update s agent_key, END)
      | Inr next_node \<Rightarrow>
          if next_node \<in> set [''questioning'', ''free_debate'', ''closing'']
          then handle_stage_transition e s next_node agent_key
          else if next_node = END then (s, empty_update, END)
          else if next_node \<noteq> agent_key then (s, empty_update, next_node)
          else
            (case generate_agent_response g e s agent_key of
               Inl err \<Rightarrow> error_command s agent_key
             | Inr (s1, update_data) \<Rightarrow>
                 (case determine_next_node (next_picks e) (merged s1 update_data) of
                    Inl err \<Rightarrow> error_command s1 agent_key
                  | Inr next_node' \<Rightarrow> (s1, update_data, next_node'))))"

subsection \<open>The graph and its runtime\<close>

text \<open>
  \<^verbatim>\<open>create_multi_agent_graph\<close>: the checks of the participant list, then one node for
  each participant, the three transition nodes, and the edge from the start to the first
  participant. The graph builder refuses to add a name that is a node already, so a list
  with a repeated key fails as well, at the second occurrence of the first key that is
  repeated, with the ValueError of the graph library.
\<close>

record graph =
  agent_nodes :: "string list"
  entry :: string

text \<open>The first key that has occurred before, going through the list.\<close>

fun first_repeated :: "string list \<Rightarrow> string list \<Rightarrow> string option" where
  "first_repeated seen [] = None"
| "first_repeated seen (k # ks) =
     (if k \<in> set seen then Some k else first_repeated (seen @ [k]) ks)"

definition create_multi_agent_graph :: "string list \<Rightarrow> py_error + graph" where
  "create_multi_agent_graph agents =
     (if length agents < 3 then Inl (ValueError too_few_agents_text)
      else if length agents > 6 then Inl (ValueError too_many_agents_text)
      else case filter (\<lambda>agent_key. AVAILABLE_ROLES agent_key = None) agents of
        agent_key # others \<Rightarrow> Inl (ValueError (unknown_agent_prefix @ agent_key))
      | [] \<Rightarrow>
          (case first_repeated [] agents of
             Some node \<Rightarrow>
               Inl (ValueError (''Node '' @ [CHR 0x60] @ node @ [CHR 0x60] @ '' already present.''))
           | None \<Rightarrow> Inr \<lparr>agent_nodes = agents, entry = hd agents\<rparr>))"

text \<open>
  The \<^verbatim>\<open>inputs\<close> dictionary a debate starts from. The graph has made no call of the
  retrieval collaborator yet.
\<close>

definition initial_state :: "string \<Rightarrow> int \<Rightarrow> string list \<Rightarrow> bool \<Rightarrow> int \<Rightarrow> state" where
  "initial_state topic rounds agents enable_rag max_refs =
     \<lparr>main_topic = topic, current_stage = ''opening'', stage_progress = 0,
      max_rounds = rounds, active_agents = agents, total_messages = 0,
      rag_enabled = enable_rag, max_refs_per_agent = max_refs, max_results_per_source = 2,
      agent_paper_cache = [], first_round_rag_completed = [],
      questions_asked = [], current_questioner = '''', current_target = '''',
      waiting_for_answer = False, opening_statements = [],
      closing_statements = [], messages = [], retrieval_calls = []\<rparr>"

text \<open>
  The runtime executes the node it is at, applies the returned update and moves to the
  node named by \<^verbatim>\<open>goto\<close>, until that is \<^verbatim>\<open>END\<close>. A \<^verbatim>\<open>goto\<close> that names no node of the
  graph is an error of the runtime.
\<close>

datatype outcome = Running string state | Terminated state | Crashed

definition run_node :: "globals \<Rightarrow> graph \<Rightarrow> env \<Rightarrow> string \<Rightarrow> state \<Rightarrow> command option" where
  "run_node g gr e node s =
     (if node \<in> set (agent_nodes gr) then Some (agent_node g e node s)
      else if node \<in> set [''questioning'', ''free_debate'', ''closing'']
        then Some (handle_stage_transition e s node ''system'')
      else None)"

fun step :: "globals \<Rightarrow> graph \<Rightarrow> env \<Rightarrow> outcome \<Rightarrow> outcome" where
  "step g gr e (Running node s) =
     (case run_node g gr e node s of
        None \<Rightarrow> Crashed
      | Some (s1, update_data, goto) \<Rightarrow>
          if goto = END then Terminated (apply_update update_data s1)
          else Running goto (apply_update update_data s1))"
| "step g gr e (Terminated s) = Terminated s"
| "step g gr e Crashed = Crashed"

text \<open>
  A run under a sequence of environments, one for each node execution. A finite sequence
  that ends in \<open>Running\<close> is a run that has not ended yet. \<open>exec\<close> follows the nodes for as
  long as there are environments; the limit the runtime puts on the number of node
  executions is in \<open>exec_limited\<close> below.
\<close>

definition exec :: "globals \<Rightarrow> graph \<Rightarrow> env list \<Rightarrow> outcome \<Rightarrow> outcome" where
  "exec g gr envs c = fold (step g gr) envs c"

definition start :: "graph \<Rightarrow> state \<Rightarrow> outcome" where
  "start gr s = Running (entry gr) s"


subsection \<open>The recursion limit of the runtime\<close>

text \<open>
  The graph library aborts a run that has not ended after the number of node executions
  its \<^verbatim>\<open>recursion_limit\<close> allows (25 unless the caller sets it; \<^verbatim>\<open>debates.py\<close> passes
  500) with \<^verbatim>\<open>GraphRecursionError\<close>, which is \<open>None\<close> here. \<open>allowed\<close> is that number of
  node executions. A sequence of environments shorter than \<open>allowed\<close> that ends in
  \<open>Running\<close> is a run that has not ended yet, as for \<open>exec\<close>; every state of a run under
  the limit is a state of \<open>exec\<close> on a prefix of the environments.
\<close>

definition exec_limited :: "globals \<Rightarrow> graph \<Rightarrow> nat \<Rightarrow> env list \<Rightarrow> outcome \<Rightarrow> outcome option" where
  "exec_limited g gr allowed envs c =
     (case exec g gr (take allowed envs) c of
        Running node s \<Rightarrow> if allowed \<le> length envs then None else Some (Running node s)
      | Terminated s \<Rightarrow> Some (Terminated s)
      | Crashed \<Rightarrow> Some Crashed)"

subsection \<open>The application: \<^verbatim>\<open>debates.py\<close>\<close>





subsection \<open>Notions the statements below use\<close>

text \<open>How many records of the ledger a participant authored, and how many address it.\<close>

definition authored :: "qa_record list \<Rightarrow> string \<Rightarrow> nat" where
  "authored asked a = length (filter (\<lambda>qa. questioner qa = a) asked)"

definition received :: "qa_record list \<Rightarrow> string \<Rightarrow> nat" where
  "received asked a = length (filter (\<lambda>qa. target qa = a) asked)"

text \<open>
  The fair-rotation rule in the words of the specification: the participants whose
  authored count is minimal, and, for a questioner \<open>q\<close>, the remaining participants whose
  received count is minimal among the remaining ones. Both in registration order.
\<close>

definition min_authored_pool :: "string list \<Rightarrow> qa_record list \<Rightarrow> string list" where
  "min_authored_pool agents asked =
     filter (\<lambda>a. list_all (\<lambda>b. authored asked a \<le> authored asked b) agents) agents"

definition min_received_pool :: "string list \<Rightarrow> qa_record list \<Rightarrow> string \<Rightarrow> string list" where
  "min_received_pool agents asked q =
     (let remaining = filter (\<lambda>a. a \<noteq> q) agents
      in filter (\<lambda>a. list_all (\<lambda>b. received asked a \<le> received asked b) remaining) remaining)"

text \<open>Whether the inference collaborator answers in an environment.\<close>

fun inference_succeeds :: "env \<Rightarrow> bool" where
  "inference_succeeds e = (case inferred e of InferReturns raw \<Rightarrow> True | InferRaises msg \<Rightarrow> False)"

text \<open>
  A questioning-stage turn that is consumed without a question or an answer: a
  participant node, in the questioning stage, returns an update that counts a turn and has
  no \<^verbatim>\<open>questions_asked\<close> key.
\<close>

definition wasted_turn :: "globals \<Rightarrow> graph \<Rightarrow> env \<Rightarrow> outcome \<Rightarrow> bool" where
  "wasted_turn g gr e c =
     (case c of
        Running node s \<Rightarrow>
          current_stage s = ''questioning'' \<and>
          (case run_node g gr e node s of
             None \<Rightarrow> False
           | Some (s1, update_data, goto) \<Rightarrow>
               u_total_messages update_data \<noteq> None \<and> u_questions_asked update_data = None)
      | Terminated s \<Rightarrow> False
      | Crashed \<Rightarrow> False)"

fun wasted_turns :: "globals \<Rightarrow> graph \<Rightarrow> env list \<Rightarrow> outcome \<Rightarrow> nat" where
  "wasted_turns g gr [] c = 0"
| "wasted_turns g gr (e # es) c =
     (if wasted_turn g gr e c then 1 else 0) + wasted_turns g gr es (step g gr e c)"

subsection \<open>Concrete inputs\<close>

definition ex_globals :: globals where
  "ex_globals = \<lparr>deepseek_ready = True, rag_module_ready = True\<rparr>"

definition ex_agents :: "string list" where
  "ex_agents = [''tech_expert'', ''sociologist'', ''ethicist'']"

definition ex_graph :: graph where
  "ex_graph = \<lparr>agent_nodes = ex_agents, entry = ''tech_expert''\<rparr>"

text \<open>Three participants, two rounds of free debate, retrieval enabled.\<close>

definition ex_state :: state where
  "ex_state = initial_state ''topic'' 2 ex_agents True 3"

text \<open>Every draw is 0, retrieval finds a text, inference answers.\<close>

definition ex_env :: env where
  "ex_env = \<lparr>route_picks = (0, 0), question_picks = (0, 0), next_picks = (0, 0),
             retrieved = RagReturns ''reference'', inferred = InferReturns ''hello''\<rparr>"

text \<open>As \<open>ex_env\<close>, but the draw of the question generator picks the second candidate.\<close>

definition ex_env_other_draw :: env where
  "ex_env_other_draw = ex_env\<lparr>question_picks := (1, 0)\<rparr>"

text \<open>As \<open>ex_env\<close>, but inference raises.\<close>

definition ex_env_failing :: env where
  "ex_env_failing = ex_env\<lparr>inferred := InferRaises ''timeout''\<rparr>"



text \<open>
  The environments of a whole run of the example (21 node executions) in which inference
  raises in the second opening turn and in the last closing turn.
\<close>

definition ex_envs_two_failures :: "env list" where
  "ex_envs_two_failures = [ex_env, ex_env_failing] @ replicate 18 ex_env @ [ex_env_failing]"



subsection \<open>The configurations of a valid run\<close>

text \<open>The ledger of a debate over \<open>agents\<close>: no participant has authored two records.\<close>

definition qa_ok :: "string list \<Rightarrow> qa_record list \<Rightarrow> bool" where
  "qa_ok agents asked =
     (distinct (map questioner asked) \<and> set (map questioner asked) \<subseteq> set agents \<and>
      set (map target asked) \<subseteq> set agents \<and> length asked \<le> length agents)"

text \<open>
  The node the runtime is at and the state fit together, for a debate over \<open>agents\<close> with
  \<open>rounds\<close> rounds of free debate: the node is the one the scheduler names for the state
  (any participant while a questioner has to be drawn).
\<close>

definition consistent :: "string list \<Rightarrow> int \<Rightarrow> string \<Rightarrow> state \<Rightarrow> bool" where
  "consistent agents rounds node s =
     (active_agents s = agents \<and> max_rounds s = rounds \<and> 0 \<le> stage_progress s \<and>
      qa_ok agents (questions_asked s) \<and> distinct (retrieval_calls s) \<and>
      (current_stage s = ''opening'' \<and> stage_progress s \<le> int (length agents) \<and>
         node = (if stage_progress s < int (length agents)
                 then agents ! nat (stage_progress s) else ''questioning'') \<and>
         set (retrieval_calls s) \<subseteq> set (take (nat (stage_progress s)) agents)
       \<or> current_stage s = ''questioning'' \<and>
         (if waiting_for_answer s
          then current_target s \<in> set agents \<and> node = current_target s \<and>
               questions_asked s \<noteq> []
          else if length (questions_asked s) < length agents then node \<in> set agents
          else node = ''free_debate'')
       \<or> current_stage s = ''free_debate'' \<and> length (questions_asked s) = length agents \<and>
         stage_progress s \<le> int (length agents) * rounds \<and>
         node = (if stage_progress s < int (length agents) * rounds
                 then agents ! nat (stage_progress s mod int (length agents)) else ''closing'')
       \<or> current_stage s = ''closing'' \<and> length (questions_asked s) = length agents \<and>
         stage_progress s \<le> int (length agents) \<and>
         node = (if stage_progress s < int (length agents)
                 then agents ! nat (stage_progress s) else END)))"

fun consistent_outcome :: "string list \<Rightarrow> int \<Rightarrow> outcome \<Rightarrow> bool" where
  "consistent_outcome agents rounds (Running node s) = (node \<noteq> END \<and> consistent agents rounds node s)"
| "consistent_outcome agents rounds (Terminated s) = consistent agents rounds END s"
| "consistent_outcome agents rounds Crashed = False"

text \<open>
  The turns a state still owes when no turn is wasted: the rest of its stage and the full
  stages after it. A question record owes its question turn and its answer turn.
\<close>

definition owed :: "state \<Rightarrow> int" where
  "owed s =
     (let n = int (length (active_agents s)) in
      if current_stage s = ''opening''
        then (n - stage_progress s) + 2 * n + n * max_rounds s + n
      else if current_stage s = ''questioning''
        then 2 * (n - int (length (questions_asked s))) + (if waiting_for_answer s then 1 else 0)
             + n * max_rounds s + n
      else if current_stage s = ''free_debate''
        then (n * max_rounds s - stage_progress s) + n
      else n - stage_progress s)"

text \<open>The stage transitions still to come.\<close>

definition transitions_left :: "state \<Rightarrow> int" where
  "transitions_left s =
     (if current_stage s = ''opening'' then 3
      else if current_stage s = ''questioning'' then 2
      else if current_stage s = ''free_debate'' then 1
      else 0)"

fun outcome_state :: "outcome \<Rightarrow> state option" where
  "outcome_state (Running node s) = Some s"
| "outcome_state (Terminated s) = Some s"
| "outcome_state Crashed = None"

fun terminated :: "outcome \<Rightarrow> bool" where
  "terminated (Running node s) = False"
| "terminated (Terminated s) = True"
| "terminated Crashed = False"

text \<open>The turns counted so far plus the turns owed; the same for the transcript.\<close>

definition balance :: "outcome \<Rightarrow> int" where
  "balance c = (case outcome_state c of None \<Rightarrow> 0 | Some s \<Rightarrow> total_messages s + owed s)"

definition transcript_balance :: "outcome \<Rightarrow> int" where
  "transcript_balance c =
     (case outcome_state c of
        None \<Rightarrow> 0
      | Some s \<Rightarrow> int (length (messages s)) + owed s + transitions_left s)"

text \<open>
  A turn is generated when the inference client is initialised and the inference call of
  the node execution returns.
\<close>

definition generation_succeeds :: "globals \<Rightarrow> env \<Rightarrow> bool" where
  "generation_succeeds g e = (deepseek_ready g \<and> inference_succeeds e)"

text \<open>
  The participant whose turn in the given stage fails in this node execution, if there is
  one: the runtime is at the node of a participant, the state is in the stage, the
  scheduler names the participant, and the turn is not generated.
\<close>

definition failed_turn :: "string \<Rightarrow> globals \<Rightarrow> graph \<Rightarrow> env \<Rightarrow> outcome \<Rightarrow> string list" where
  "failed_turn stage g gr e c =
     (case c of
        Running node s \<Rightarrow>
          if current_stage s = stage \<and> node \<in> set (agent_nodes gr) \<and>
             determine_next_node (route_picks e) s = Inr node \<and> \<not> generation_succeeds g e
          then [node] else []
      | Terminated s \<Rightarrow> []
      | Crashed \<Rightarrow> [])"

text \<open>The participants whose turn in the given stage failed, along a run.\<close>

fun failed_speakers ::
  "string \<Rightarrow> globals \<Rightarrow> graph \<Rightarrow> env list \<Rightarrow> outcome \<Rightarrow> string list" where
  "failed_speakers stage g gr [] c = []"
| "failed_speakers stage g gr (e # es) c =
     failed_turn stage g gr e c @ failed_speakers stage g gr es (step g gr e c)"

text \<open>
  The statement archives, given the participants whose opening turn and whose closing turn
  failed so far: the keys of the opening statements are the participants that have spoken
  in the opening stage and did not fail, in order, and likewise for the closing statements.
\<close>

definition statements_ok :: "string list \<Rightarrow> string list \<Rightarrow> string list \<Rightarrow> state \<Rightarrow> bool" where
  "statements_ok agents failed_opening failed_closing s =
     (let spoken_opening =
            (if current_stage s = ''opening'' then take (nat (stage_progress s)) agents
             else agents);
          spoken_closing =
            (if current_stage s = ''closing'' then take (nat (stage_progress s)) agents
             else [])
      in map fst (opening_statements s)
           = filter (\<lambda>a. a \<notin> set failed_opening) spoken_opening \<and>
         set failed_opening \<subseteq> set spoken_opening \<and>
         map fst (closing_statements s)
           = filter (\<lambda>a. a \<notin> set failed_closing) spoken_closing \<and>
         set failed_closing \<subseteq> set spoken_closing)"



text \<open>
  The debate is in the opening stage, or in the questioning stage with an empty ledger and
  no answer pending.
\<close>

definition before_first_question :: "state \<Rightarrow> bool" where
  "before_first_question s =
     (current_stage s = ''opening'' \<or>
      current_stage s = ''questioning'' \<and> questions_asked s = [] \<and> \<not> waiting_for_answer s)"

section \<open>Properties\<close>

subsection \<open>The selection computes the fair-rotation pools\<close>

lemma dict_get_map:
  "dict_get (map (\<lambda>a. (a, f a)) agents) k = (if k \<in> set agents then Inr (f k) else Inl (KeyError k))"
  by (induction agents) auto

lemma dict_set_map:
  "distinct agents \<Longrightarrow> k \<in> set agents \<Longrightarrow>
   dict_set (map (\<lambda>a. (a, f a)) agents) k v = map (\<lambda>a. (a, (f(k := v)) a)) agents"
  by (induction agents) auto

lemma dict_set_new: "k \<notin> fst ` set d \<Longrightarrow> dict_set d k v = d @ [(k, v)]"
  by (induction d) auto

lemma fold_dict_set_distinct:
  "distinct (map fst d @ agents) \<Longrightarrow>
   fold (\<lambda>agent d. dict_set d agent v) agents d = d @ map (\<lambda>a. (a, v)) agents"
proof (induction agents arbitrary: d)
  case Nil
  then show ?case by simp
next
  case (Cons a agents)
  have "a \<notin> fst ` set d" using Cons.prems by auto
  then have s: "dict_set d a v = d @ [(a, v)]" by (rule dict_set_new)
  have "distinct (map fst (d @ [(a, v)]) @ agents)" using Cons.prems by auto
  from Cons.IH[OF this] show ?case by (simp add: s)
qed

lemma zero_counts_distinct: "distinct agents \<Longrightarrow> zero_counts agents = map (\<lambda>a. (a, 0)) agents"
  using fold_dict_set_distinct[of "[]" agents 0] by (simp add: zero_counts_def)

lemma dict_incr_map:
  "distinct agents \<Longrightarrow> k \<in> set agents \<Longrightarrow>
   dict_incr (map (\<lambda>a. (a, f a)) agents) k = Inr (map (\<lambda>a. (a, (f(k := f k + 1)) a)) agents)"
  by (simp add: dict_incr_def dict_get_map dict_set_map)

lemma count_loop_map:
  "distinct agents \<Longrightarrow> \<forall>qa\<in>set asked. questioner qa \<in> set agents \<and> target qa \<in> set agents \<Longrightarrow>
   count_loop asked (map (\<lambda>a. (a, f a)) agents) (map (\<lambda>a. (a, h a)) agents) =
     Inr (map (\<lambda>a. (a, f a + int (authored asked a))) agents,
          map (\<lambda>a. (a, h a + int (received asked a))) agents)"
proof (induction asked arbitrary: f h)
  case Nil
  then show ?case by (simp add: authored_def received_def)
next
  case (Cons qa asked)
  have q: "questioner qa \<in> set agents" and t: "target qa \<in> set agents" using Cons.prems(2) by auto
  have rest: "\<forall>qa\<in>set asked. questioner qa \<in> set agents \<and> target qa \<in> set agents"
    using Cons.prems(2) by auto
  let ?f = "f(questioner qa := f (questioner qa) + 1)"
  let ?h = "h(target qa := h (target qa) + 1)"
  have unroll: "count_loop (qa # asked) (map (\<lambda>a. (a, f a)) agents) (map (\<lambda>a. (a, h a)) agents)
      = count_loop asked (map (\<lambda>a. (a, ?f a)) agents) (map (\<lambda>a. (a, ?h a)) agents)"
    by (simp add: dict_incr_map[OF Cons.prems(1) q] dict_incr_map[OF Cons.prems(1) t]
          del: fun_upd_apply)
  have f: "map (\<lambda>a. (a, ?f a + int (authored asked a))) agents
         = map (\<lambda>a. (a, f a + int (authored (qa # asked) a))) agents"
    by (rule map_cong) (auto simp: authored_def)
  have h: "map (\<lambda>a. (a, ?h a + int (received asked a))) agents
         = map (\<lambda>a. (a, h a + int (received (qa # asked) a))) agents"
    by (rule map_cong) (auto simp: received_def)
  show ?case
    unfolding unroll Cons.IH[OF Cons.prems(1) rest, of ?f ?h] f h ..
qed

lemma py_min_nonempty: "xs \<noteq> [] \<Longrightarrow> py_min xs = Inr (Min (set xs))"
  by (cases xs) (simp_all add: py_min_def Min.set_eq_fold del: set_simps)

lemma lookup_all_map:
  "set xs \<subseteq> set agents \<Longrightarrow> lookup_all (map (\<lambda>a. (a, f a)) agents) xs = Inr (map f xs)"
  by (induction xs) (auto simp: dict_get_map)

lemma is_min_iff:
  fixes f :: "string \<Rightarrow> nat"
  assumes "a \<in> set xs"
  shows "int (f a) = Min ((\<lambda>b. int (f b)) ` set xs) \<longleftrightarrow> list_all (\<lambda>b. f a \<le> f b) xs"
proof -
  let ?S = "(\<lambda>b. int (f b)) ` set xs"
  have fin: "finite ?S" by simp
  have in_S: "int (f a) \<in> ?S" using assms by (rule imageI)
  show ?thesis
  proof
    assume eq: "int (f a) = Min ?S"
    have "\<And>b. b \<in> set xs \<Longrightarrow> int (f a) \<le> int (f b)"
      unfolding eq by (rule Min_le[OF fin]) (rule imageI)
    then show "list_all (\<lambda>b. f a \<le> f b) xs" by (simp add: list_all_iff)
  next
    assume "list_all (\<lambda>b. f a \<le> f b) xs"
    then have "\<And>y. y \<in> ?S \<Longrightarrow> int (f a) \<le> y" by (auto simp: list_all_iff)
    then have "Min ?S = int (f a)" using in_S by (rule Min_eqI[OF fin])
    then show "int (f a) = Min ?S" by simp
  qed
qed

lemma ex_min_list:
  fixes f :: "'a \<Rightarrow> nat"
  assumes "xs \<noteq> []"
  shows "\<exists>a\<in>set xs. \<forall>b\<in>set xs. f a \<le> f b"
proof -
  have "arg_min_list f xs \<in> set xs" using assms by (rule arg_min_list_in)
  moreover have "\<forall>b\<in>set xs. f (arg_min_list f xs) \<le> f b"
    using assms by (simp add: f_arg_min_list_f)
  ultimately show ?thesis by blast
qed

lemma select_refines:
  assumes d: "distinct agents" and n: "2 \<le> length agents"
    and k: "\<forall>qa\<in>set asked. questioner qa \<in> set agents \<and> target qa \<in> set agents"
  shows "select_next_questioner_and_target agents asked (r1, r2) =
           (let q = min_authored_pool agents asked ! (r1 mod length (min_authored_pool agents asked))
            in Inr (q, min_received_pool agents asked q
                         ! (r2 mod length (min_received_pool agents asked q))))"
    and "min_authored_pool agents asked \<noteq> []"
    and "\<And>q. min_received_pool agents asked q \<noteq> []"
proof -
  let ?F = "\<lambda>a. int (authored asked a)" and ?H = "\<lambda>a. int (received asked a)"
  have ne: "agents \<noteq> []" using n by auto
  have loop: "count_loop asked (zero_counts agents) (zero_counts agents) =
       Inr (map (\<lambda>a. (a, ?F a)) agents, map (\<lambda>a. (a, ?H a)) agents)"
    using count_loop_map[OF d k, of "\<lambda>a. 0" "\<lambda>a. 0"] by (simp add: zero_counts_distinct[OF d])
  have snd_map: "map snd (map (\<lambda>a. (a, ?F a)) agents) = map ?F agents" by (simp add: comp_def)
  have minq: "py_min (map ?F agents) = Inr (Min (set (map ?F agents)))"
    using ne by (simp add: py_min_nonempty)
  have candq: "map fst (filter (\<lambda>(agent, count). count = Min (set (map ?F agents)))
                   (map (\<lambda>a. (a, ?F a)) agents)) = min_authored_pool agents asked"
  proof -
    have "filter (\<lambda>a. ?F a = Min (set (map ?F agents))) agents = min_authored_pool agents asked"
      unfolding min_authored_pool_def by (rule filter_cong) (simp_all add: is_min_iff)
    then show ?thesis by (simp add: filter_map comp_def)
  qed
  obtain a0 where a0: "a0 \<in> set agents" "\<forall>b\<in>set agents. authored asked a0 \<le> authored asked b"
  proof -
    have "\<exists>a\<in>set agents. \<forall>b\<in>set agents. authored asked a \<le> authored asked b"
      using ne by (rule ex_min_list)
    then show ?thesis using that by blast
  qed
  show poolne: "min_authored_pool agents asked \<noteq> []"
    using a0 by (auto simp: min_authored_pool_def filter_empty_conv list_all_iff)
  have restne: "\<And>q. filter (\<lambda>a. a \<noteq> q) agents \<noteq> []"
  proof -
    fix q
    from n d obtain x y where "x \<in> set agents" "y \<in> set agents" "x \<noteq> y"
      by (metis One_nat_def Suc_1 distinct_card card_le_Suc0_iff_eq finite_set not_less_eq_eq)
    then have "\<exists>a\<in>set agents. a \<noteq> q" by metis
    then show "filter (\<lambda>a. a \<noteq> q) agents \<noteq> []"
      by (simp add: filter_empty_conv)
  qed
  show tne: "\<And>q. min_received_pool agents asked q \<noteq> []"
  proof -
    fix q
    let ?rest = "filter (\<lambda>a. a \<noteq> q) agents"
    have "\<exists>a\<in>set ?rest. \<forall>b\<in>set ?rest. received asked a \<le> received asked b"
      using restne[of q] by (rule ex_min_list)
    then show "min_received_pool agents asked q \<noteq> []"
      unfolding min_received_pool_def Let_def by (auto simp: filter_empty_conv list_all_iff)
  qed
  let ?pool = "min_authored_pool agents asked"
  let ?q = "?pool ! (r1 mod length ?pool)"
  let ?rest = "filter (\<lambda>a. a \<noteq> ?q) agents"
  have choice_q: "random_choice ?pool r1 = Inr ?q" using poolne by (simp add: random_choice_def)
  have look: "lookup_all (map (\<lambda>a. (a, ?H a)) agents) ?rest = Inr (map ?H ?rest)"
    by (rule lookup_all_map) auto
  have mint: "py_min (map ?H ?rest) = Inr (Min (set (map ?H ?rest)))"
    using restne by (simp add: py_min_nonempty)
  have candt: "filter (\<lambda>agent. dict_get (map (\<lambda>a. (a, ?H a)) agents) agent = Inr (Min (set (map ?H ?rest)))) ?rest
      = min_received_pool agents asked ?q"
    unfolding min_received_pool_def Let_def
  proof (rule filter_cong[OF refl])
    fix a
    assume a: "a \<in> set ?rest"
    then have "a \<in> set agents" by simp
    then have g: "dict_get (map (\<lambda>a. (a, ?H a)) agents) a = Inr (?H a)"
      by (simp add: dict_get_map)
    have m: "(?H a = Min (?H ` set ?rest)) = list_all (\<lambda>b. received asked a \<le> received asked b) ?rest"
      using a by (rule is_min_iff)
    show "(dict_get (map (\<lambda>a. (a, ?H a)) agents) a = Inr (Min (set (map ?H ?rest))))
        = list_all (\<lambda>b. received asked a \<le> received asked b) ?rest"
      unfolding g using m by (simp del: set_filter)
  qed
  have choice_t: "random_choice (min_received_pool agents asked ?q) r2 =
      Inr (min_received_pool agents asked ?q ! (r2 mod length (min_received_pool agents asked ?q)))"
    using tne by (simp add: random_choice_def)
  show "select_next_questioner_and_target agents asked (r1, r2) =
           (let q = ?pool ! (r1 mod length ?pool)
            in Inr (q, min_received_pool agents asked q
                         ! (r2 mod length (min_received_pool agents asked q))))"
    by (simp only: select_next_questioner_and_target_def loop sum.case prod.case snd_map minq
          Let_def candq fst_conv snd_conv choice_q look mint candt choice_t)
qed

subsection \<open>Indexing and the registry\<close>

lemma py_index_nonneg:
  "0 \<le> i \<Longrightarrow> i < int (length xs) \<Longrightarrow> py_index xs i = Inr (xs ! nat i)"
  by (simp add: py_index_def)

lemma role_keys:
  "AVAILABLE_ROLES k \<noteq> None \<Longrightarrow>
   k \<in> set [''environmentalist'', ''economist'', ''policy_maker'', ''tech_expert'',
             ''sociologist'', ''ethicist'']"
  by (simp add: AVAILABLE_ROLES_def split: if_splits)

lemma role_key_not_reserved:
  assumes "AVAILABLE_ROLES k \<noteq> None"
  shows "k \<noteq> ''questioning''" and "k \<noteq> ''free_debate''" and "k \<noteq> ''closing''"
    and "k \<noteq> END" and "k \<noteq> []"
  using role_keys[OF assms] by (auto simp: END_def)


subsection \<open>What one turn does to the state\<close>

text \<open>
  For each stage: the state after the runtime has applied the update of
  \<^verbatim>\<open>_generate_agent_response\<close>, field by field. Whatever the collaborators do, the turn
  is counted once and one message is appended.
\<close>

lemma overwrite_simps [simp]: "overwrite None old = old" "overwrite (Some v) old = v"
  by (simp_all add: overwrite_def)

lemmas update_defs = apply_update_def overwrite_keys_def turn_update_def empty_update_def

lemma get_rag_effect:
  assumes "get_rag_context_for_agent g e a topic s = Inr (text, s1)"
  shows "s1 = s \<or>
         (current_stage s = ''opening'' \<and> a \<notin> set (first_round_rag_completed s) \<and>
          (s1 = s\<lparr>retrieval_calls := retrieval_calls s @ [a]\<rparr> \<or>
           (\<exists>c. s1 = s\<lparr>retrieval_calls := retrieval_calls s @ [a],
                        agent_paper_cache := dict_set (agent_paper_cache s) a c,
                        first_round_rag_completed := first_round_rag_completed s @ [a]\<rparr>)))"
  using assms
  by (auto simp: get_rag_context_for_agent_def Let_def
      split: if_splits option.splits rag_result.splits)

lemma get_rag_later:
  assumes "get_rag_context_for_agent g e a topic s = Inr (text, s1)"
    and "current_stage s \<noteq> ''opening''"
  shows "s1 = s"
  using get_rag_effect[OF assms(1)] assms(2) by blast

lemma get_rag_known [simp]:
  "AVAILABLE_ROLES a = Some name \<Longrightarrow> get_rag_context_for_agent g e a topic s \<noteq> Inl err"
  by (auto simp: get_rag_context_for_agent_def Let_def
      split: if_splits option.splits rag_result.splits)

text \<open>The texts of the prompt never raise when every key they look up is in the registry.\<close>

lemma lookup_names_known:
  "\<forall>k\<in>set ks. AVAILABLE_ROLES k \<noteq> None \<Longrightarrow> lookup_names ks \<noteq> Inl err"
  by (induction ks) (auto split: option.splits sum.splits)

lemma get_other_participants_known:
  "\<forall>k\<in>set agents. AVAILABLE_ROLES k \<noteq> None \<Longrightarrow> get_other_participants agents a \<noteq> Inl err"
  unfolding get_other_participants_def by (rule lookup_names_known) simp

lemma format_opening_statements_known:
  "\<forall>k\<in>set agents. AVAILABLE_ROLES k \<noteq> None \<Longrightarrow>
   format_opening_statements statements agents \<noteq> Inl err"
  unfolding format_opening_statements_def by (simp add: lookup_names_known)

lemma format_agent_history_known:
  assumes "\<forall>k\<in>set agents. AVAILABLE_ROLES k \<noteq> None" and "agents \<noteq> []"
  shows "format_agent_history all_messages agents \<noteq> Inl err"
  unfolding format_agent_history_def using assms
  by (auto intro!: lookup_names_known)

lemma format_qa_summary_known:
  assumes "\<forall>qa\<in>set asked. AVAILABLE_ROLES (questioner qa) \<noteq> None \<and>
                          AVAILABLE_ROLES (target qa) \<noteq> None"
  shows "format_qa_summary asked \<noteq> Inl err"
  unfolding format_qa_summary_def using assms
  by (auto intro!: lookup_names_known)

lemma gen_total:
  "AVAILABLE_ROLES a \<noteq> None \<Longrightarrow> \<exists>s1 u. generate_agent_response g e s a = Inr (s1, u)"
  by (auto simp: generate_agent_response_def split: sum.splits)

lemma opening_turn:
  assumes "generate_agent_response g e s a = Inr (s1, u)" and "current_stage s = ''opening''"
  shows "current_stage (apply_update u s1) = ''opening''"
    and "stage_progress (apply_update u s1) = stage_progress s + 1"
    and "total_messages (apply_update u s1) = total_messages s + 1"
    and "length (messages (apply_update u s1)) = length (messages s) + 1"
    and "active_agents (apply_update u s1) = active_agents s"
    and "max_rounds (apply_update u s1) = max_rounds s"
    and "u_total_messages u \<noteq> None"
    and "questions_asked (apply_update u s1) = questions_asked s"
    and "waiting_for_answer (apply_update u s1) = waiting_for_answer s"
    and "current_target (apply_update u s1) = current_target s"
    and "closing_statements (apply_update u s1) = closing_statements s"
    and "retrieval_calls (apply_update u s1) = retrieval_calls s \<or>
         retrieval_calls (apply_update u s1) = retrieval_calls s @ [a]"
    and "opening_statements (apply_update u s1) = opening_statements s \<or>
         (\<exists>r. opening_statements (apply_update u s1) = dict_set (opening_statements s) a r)"
    and "(\<forall>k\<in>set (active_agents s). AVAILABLE_ROLES k \<noteq> None) \<longrightarrow>
         deepseek_ready g \<and> inference_succeeds e \<longrightarrow>
         (\<exists>r. opening_statements (apply_update u s1) = dict_set (opening_statements s) a r)"
    and "(agent_paper_cache (apply_update u s1) = agent_paper_cache s \<and>
          first_round_rag_completed (apply_update u s1) = first_round_rag_completed s)
       \<or> (\<exists>c. agent_paper_cache (apply_update u s1) = dict_set (agent_paper_cache s) a c \<and>
               first_round_rag_completed (apply_update u s1) = first_round_rag_completed s @ [a])"
  using assms
  by (auto simp: generate_agent_response_def generate_opening_statement_def update_defs Let_def
        get_other_participants_known
      split: if_splits option.splits sum.splits prod.splits infer_result.splits
      dest!: get_rag_effect)

lemma opening_failure:
  assumes "generate_agent_response g e s a = Inr (s1, u)" and "current_stage s = ''opening''"
    and "\<not> deepseek_ready g \<or> \<not> inference_succeeds e"
  shows "opening_statements (apply_update u s1) = opening_statements s"
  using assms
  by (auto simp: generate_agent_response_def generate_opening_statement_def update_defs Let_def
      split: if_splits option.splits sum.splits prod.splits infer_result.splits
      dest!: get_rag_effect)

lemma question_turn:
  assumes "generate_agent_response g e s a = Inr (s1, u)"
    and "current_stage s = ''questioning''"
    and "\<not> (waiting_for_answer s \<and> current_target s = a)"
  shows "current_stage (apply_update u s1) = ''questioning''"
    and "stage_progress (apply_update u s1) = stage_progress s + 1"
    and "total_messages (apply_update u s1) = total_messages s + 1"
    and "length (messages (apply_update u s1)) = length (messages s) + 1"
    and "active_agents (apply_update u s1) = active_agents s"
    and "max_rounds (apply_update u s1) = max_rounds s"
    and "u_total_messages u \<noteq> None"
    and "opening_statements (apply_update u s1) = opening_statements s"
    and "closing_statements (apply_update u s1) = closing_statements s"
    and "retrieval_calls (apply_update u s1) = retrieval_calls s"
    and "(u_questions_asked u = None \<and>
          questions_asked (apply_update u s1) = questions_asked s \<and>
          waiting_for_answer (apply_update u s1) = waiting_for_answer s \<and>
          current_target (apply_update u s1) = current_target s)
       \<or> (\<exists>t r. select_next_questioner_and_target (active_agents s) (questions_asked s)
                   (question_picks e) = Inr (a, t) \<and>
                 u_questions_asked u \<noteq> None \<and>
                 questions_asked (apply_update u s1) = questions_asked s @
                   [\<lparr>questioner = a, target = t, question = r, answer = ''''\<rparr>] \<and>
                 waiting_for_answer (apply_update u s1) \<and>
                 current_target (apply_update u s1) = t \<and>
                 deepseek_ready g \<and> inference_succeeds e)"
    and "agent_paper_cache (apply_update u s1) = agent_paper_cache s"
    and "first_round_rag_completed (apply_update u s1) = first_round_rag_completed s"
  using assms
  by (auto simp: generate_agent_response_def generate_question_def update_defs Let_def
      split: if_splits option.splits sum.splits prod.splits infer_result.splits
      dest!: get_rag_later)

lemma answer_turn:
  assumes "generate_agent_response g e s a = Inr (s1, u)"
    and "current_stage s = ''questioning''"
    and "waiting_for_answer s" and "current_target s = a"
  shows "current_stage (apply_update u s1) = ''questioning''"
    and "stage_progress (apply_update u s1) = stage_progress s + 1"
    and "total_messages (apply_update u s1) = total_messages s + 1"
    and "length (messages (apply_update u s1)) = length (messages s) + 1"
    and "active_agents (apply_update u s1) = active_agents s"
    and "max_rounds (apply_update u s1) = max_rounds s"
    and "u_total_messages u \<noteq> None"
    and "opening_statements (apply_update u s1) = opening_statements s"
    and "closing_statements (apply_update u s1) = closing_statements s"
    and "retrieval_calls (apply_update u s1) = retrieval_calls s"
    and "(u_questions_asked u = None \<and>
          questions_asked (apply_update u s1) = questions_asked s \<and>
          waiting_for_answer (apply_update u s1) \<and>
          current_target (apply_update u s1) = current_target s)
       \<or> (\<exists>r. u_questions_asked u \<noteq> None \<and> questions_asked s \<noteq> [] \<and>
               questions_asked (apply_update u s1) =
                 butlast (questions_asked s) @ [(last (questions_asked s))\<lparr>answer := r\<rparr>] \<and>
               \<not> waiting_for_answer (apply_update u s1) \<and>
               current_target (apply_update u s1) = [] \<and>
               deepseek_ready g \<and> inference_succeeds e)"
    and "agent_paper_cache (apply_update u s1) = agent_paper_cache s"
    and "first_round_rag_completed (apply_update u s1) = first_round_rag_completed s"
  using assms
  by (auto simp: generate_agent_response_def generate_answer_def update_defs Let_def
      split: if_splits option.splits sum.splits prod.splits infer_result.splits
      dest!: get_rag_later)

lemma free_debate_turn:
  assumes "generate_agent_response g e s a = Inr (s1, u)"
    and "current_stage s = ''free_debate''"
  shows "current_stage (apply_update u s1) = ''free_debate''"
    and "stage_progress (apply_update u s1) = stage_progress s + 1"
    and "total_messages (apply_update u s1) = total_messages s + 1"
    and "length (messages (apply_update u s1)) = length (messages s) + 1"
    and "active_agents (apply_update u s1) = active_agents s"
    and "max_rounds (apply_update u s1) = max_rounds s"
    and "u_total_messages u \<noteq> None"
    and "questions_asked (apply_update u s1) = questions_asked s"
    and "waiting_for_answer (apply_update u s1) = waiting_for_answer s"
    and "current_target (apply_update u s1) = current_target s"
    and "opening_statements (apply_update u s1) = opening_statements s"
    and "closing_statements (apply_update u s1) = closing_statements s"
    and "retrieval_calls (apply_update u s1) = retrieval_calls s"
    and "agent_paper_cache (apply_update u s1) = agent_paper_cache s"
    and "first_round_rag_completed (apply_update u s1) = first_round_rag_completed s"
  using assms
  by (auto simp: generate_agent_response_def generate_free_debate_response_def update_defs
        Let_def
      split: if_splits option.splits sum.splits prod.splits infer_result.splits
      dest!: get_rag_later)

lemma closing_turn:
  assumes "generate_agent_response g e s a = Inr (s1, u)" and "current_stage s = ''closing''"
  shows "current_stage (apply_update u s1) = ''closing''"
    and "stage_progress (apply_update u s1) = stage_progress s + 1"
    and "total_messages (apply_update u s1) = total_messages s + 1"
    and "length (messages (apply_update u s1)) = length (messages s) + 1"
    and "active_agents (apply_update u s1) = active_agents s"
    and "max_rounds (apply_update u s1) = max_rounds s"
    and "u_total_messages u \<noteq> None"
    and "questions_asked (apply_update u s1) = questions_asked s"
    and "waiting_for_answer (apply_update u s1) = waiting_for_answer s"
    and "current_target (apply_update u s1) = current_target s"
    and "opening_statements (apply_update u s1) = opening_statements s"
    and "retrieval_calls (apply_update u s1) = retrieval_calls s"
    and "closing_statements (apply_update u s1) = closing_statements s \<or>
         (\<exists>r. closing_statements (apply_update u s1) = dict_set (closing_statements s) a r)"
    and "(\<forall>k\<in>set (active_agents s). AVAILABLE_ROLES k \<noteq> None) \<longrightarrow>
         deepseek_ready g \<and> inference_succeeds e \<longrightarrow>
         (\<exists>r. closing_statements (apply_update u s1) = dict_set (closing_statements s) a r)"
    and "agent_paper_cache (apply_update u s1) = agent_paper_cache s"
    and "first_round_rag_completed (apply_update u s1) = first_round_rag_completed s"
  using assms
  by (auto simp: generate_agent_response_def generate_closing_statement_def update_defs Let_def
        get_other_participants_known
      split: if_splits option.splits sum.splits prod.splits infer_result.splits
      dest!: get_rag_later)

lemma closing_failure:
  assumes "generate_agent_response g e s a = Inr (s1, u)" and "current_stage s = ''closing''"
    and "\<not> deepseek_ready g \<or> \<not> inference_succeeds e"
  shows "closing_statements (apply_update u s1) = closing_statements s"
  using assms
  by (auto simp: generate_agent_response_def generate_closing_statement_def update_defs Let_def
      split: if_splits option.splits sum.splits prod.splits infer_result.splits
      dest!: get_rag_later)


subsection \<open>The scheduler in the configurations of a valid run\<close>

lemma determine_ignores_messages [simp]:
  "determine_next_node picks (s\<lparr>messages := m\<rparr>) = determine_next_node picks s"
  by (simp add: determine_next_node_def)

lemma determine_merged:
  "determine_next_node picks (merged s u) = determine_next_node picks (apply_update u s)"
  by (simp add: merged_def apply_update_def)

lemma first_repeated_None:
  "first_repeated seen ks = None \<longleftrightarrow> distinct ks \<and> set seen \<inter> set ks = {}"
  by (induction ks arbitrary: seen) auto

lemma graph_valid:
  assumes "create_multi_agent_graph agents = Inr gr"
  shows "agent_nodes gr = agents" and "entry gr = hd agents"
    and "3 \<le> length agents" and "length agents \<le> 6" and "distinct agents"
    and "\<And>a. a \<in> set agents \<Longrightarrow> AVAILABLE_ROLES a \<noteq> None"
  using assms
  by (auto simp: create_multi_agent_graph_def filter_empty_conv first_repeated_None
      split: if_splits list.splits option.splits)

lemma det_opening:
  assumes "current_stage s = ''opening''" and "0 \<le> stage_progress s"
  shows "determine_next_node picks s =
           Inr (if stage_progress s < int (length (active_agents s))
                then active_agents s ! nat (stage_progress s) else ''questioning'')"
  using assms by (simp add: determine_next_node_def py_index_nonneg)

lemma det_closing:
  assumes "current_stage s = ''closing''" and "0 \<le> stage_progress s"
  shows "determine_next_node picks s =
           Inr (if stage_progress s < int (length (active_agents s))
                then active_agents s ! nat (stage_progress s) else END)"
  using assms by (simp add: determine_next_node_def py_index_nonneg)

lemma int_div_less_mult:
  fixes a n r :: int
  assumes "0 < n"
  shows "a div n + 1 \<le> r \<longleftrightarrow> a < n * r"
proof
  have e: "n * (a div n) + a mod n = a" by (rule mult_div_mod_eq)
  have m: "a mod n < n" using assms by simp
  assume "a div n + 1 \<le> r"
  then have "n * (a div n + 1) \<le> n * r" using assms by (simp add: mult_left_mono)
  moreover have "n * (a div n + 1) = n * (a div n) + n" by (simp add: distrib_left)
  ultimately show "a < n * r" using e m by linarith
next
  have e: "n * (a div n) + a mod n = a" by (rule mult_div_mod_eq)
  have m: "0 \<le> a mod n" using assms by simp
  assume lt: "a < n * r"
  show "a div n + 1 \<le> r"
  proof (rule ccontr)
    assume "\<not> a div n + 1 \<le> r"
    then have "r \<le> a div n" by simp
    then have "n * r \<le> n * (a div n)" using assms by (simp add: mult_left_mono)
    then show False using e m lt by linarith
  qed
qed

lemma det_free_debate:
  assumes "current_stage s = ''free_debate''" and "0 \<le> stage_progress s"
    and "active_agents s \<noteq> []"
  shows "determine_next_node picks s =
           Inr (if stage_progress s < int (length (active_agents s)) * max_rounds s
                then active_agents s ! nat (stage_progress s mod int (length (active_agents s)))
                else ''closing'')"
proof -
  let ?n = "int (length (active_agents s))"
  have pos: "0 < ?n" using assms(3) by simp
  have m: "0 \<le> stage_progress s mod ?n" "stage_progress s mod ?n < ?n" using pos by simp_all
  show ?thesis
    using assms m int_div_less_mult[OF pos, of "stage_progress s" "max_rounds s"]
    by (simp add: determine_next_node_def py_index_nonneg Let_def)
qed

lemma det_waiting:
  assumes "current_stage s = ''questioning''" and "waiting_for_answer s"
  shows "determine_next_node picks s =
           (if current_target s \<noteq> [] \<and> current_target s \<in> set (active_agents s)
            then Inr (current_target s) else Inr ''free_debate'')"
  using assms by (simp add: determine_next_node_def)

lemma det_done:
  assumes "current_stage s = ''questioning''" and "\<not> waiting_for_answer s"
    and "\<not> length (questions_asked s) < length (active_agents s)"
  shows "determine_next_node picks s = Inr ''free_debate''"
  using assms by (simp add: determine_next_node_def)

lemma qa_ok_keys:
  "qa_ok agents asked \<Longrightarrow> \<forall>qa\<in>set asked. questioner qa \<in> set agents \<and> target qa \<in> set agents"
  by (auto simp: qa_ok_def)

lemma pool_subset: "set (min_authored_pool agents asked) \<subseteq> set agents"
  by (auto simp: min_authored_pool_def)

lemma received_pool_subset:
  "set (min_received_pool agents asked q) \<subseteq> set agents - {q}"
  by (auto simp: min_received_pool_def Let_def)

text \<open>While a participant has not asked, only participants that have not asked are drawn.\<close>

lemma pool_not_asked:
  assumes d: "distinct agents" and ok: "qa_ok agents asked" and lt: "length asked < length agents"
    and a: "a \<in> set (min_authored_pool agents asked)"
  shows "a \<notin> set (map questioner asked)"
proof -
  have "card (set (map questioner asked)) = length asked"
    using ok distinct_card[of "map questioner asked"] by (simp add: qa_ok_def)
  moreover have "card (set agents) = length agents" using d by (rule distinct_card)
  ultimately have "card (set (map questioner asked)) < card (set agents)" using lt by simp
  then obtain b where b: "b \<in> set agents" "b \<notin> set (map questioner asked)"
    using ok by (metis qa_ok_def subsetI subset_antisym less_irrefl)
  have zero: "authored asked b = 0"
    using b(2) by (auto simp: authored_def filter_empty_conv)
  have "authored asked a \<le> authored asked b"
    using a b(1) by (auto simp: min_authored_pool_def list_all_iff)
  then have "authored asked a = 0" using zero by simp
  then show ?thesis by (auto simp: authored_def filter_empty_conv)
qed

lemma select_ok:
  assumes d: "distinct agents" and n: "2 \<le> length agents" and ok: "qa_ok agents asked"
  obtains q t where "select_next_questioner_and_target agents asked picks = Inr (q, t)"
    and "q \<in> set (min_authored_pool agents asked)" and "q \<in> set agents"
    and "t \<in> set agents" and "t \<noteq> q"
proof -
  obtain r1 r2 where p: "picks = (r1, r2)" by (cases picks)
  let ?P = "min_authored_pool agents asked"
  let ?q = "?P ! (r1 mod length ?P)"
  let ?T = "min_received_pool agents asked ?q"
  let ?t = "?T ! (r2 mod length ?T)"
  note r = select_refines[OF d n qa_ok_keys[OF ok]]
  have sel: "select_next_questioner_and_target agents asked picks = Inr (?q, ?t)"
    using r(1)[of r1 r2] by (simp add: p Let_def)
  have q: "?q \<in> set ?P" using r(2) by simp
  have t: "?t \<in> set ?T" using r(3)[of ?q] by simp
  show ?thesis
    using that[OF sel q] q t pool_subset[of agents asked] received_pool_subset[of agents asked ?q]
    by blast
qed

lemma det_asking:
  assumes "current_stage s = ''questioning''" and "\<not> waiting_for_answer s"
    and "length (questions_asked s) < length (active_agents s)"
    and "distinct (active_agents s)" and "2 \<le> length (active_agents s)"
    and "qa_ok (active_agents s) (questions_asked s)"
  obtains q t where "determine_next_node picks s = Inr q"
    and "select_next_questioner_and_target (active_agents s) (questions_asked s) picks = Inr (q, t)"
    and "q \<in> set (min_authored_pool (active_agents s) (questions_asked s))"
    and "q \<in> set (active_agents s)"
proof -
  from select_ok[OF assms(4,5,6), of picks] obtain q t where
    sel: "select_next_questioner_and_target (active_agents s) (questions_asked s) picks = Inr (q, t)"
    and q: "q \<in> set (min_authored_pool (active_agents s) (questions_asked s))" "q \<in> set (active_agents s)"
    by blast
  have "determine_next_node picks s = Inr q"
    using assms(1,2,3) sel by (simp add: determine_next_node_def)
  then show ?thesis using that sel q by blast
qed

subsection \<open>One step of the runtime\<close>

lemma apply_empty_update [simp]: "apply_update empty_update s = s"
  by (simp add: update_defs)

lemma transition_fields:
  "current_stage (apply_update (transition_update t) s) = t"
  "stage_progress (apply_update (transition_update t) s) = 0"
  "total_messages (apply_update (transition_update t) s) = total_messages s"
  "length (messages (apply_update (transition_update t) s)) = length (messages s) + 1"
  "active_agents (apply_update (transition_update t) s) = active_agents s"
  "max_rounds (apply_update (transition_update t) s) = max_rounds s"
  "opening_statements (apply_update (transition_update t) s) = opening_statements s"
  "closing_statements (apply_update (transition_update t) s) = closing_statements s"
  "retrieval_calls (apply_update (transition_update t) s) = retrieval_calls s"
  "questions_asked (apply_update (transition_update t) s) =
     (if t = ''questioning'' then [] else questions_asked s)"
  "waiting_for_answer (apply_update (transition_update t) s) =
     (if t = ''questioning'' then False else waiting_for_answer s)"
  "current_target (apply_update (transition_update t) s) =
     (if t = ''questioning'' then [] else current_target s)"
  "u_total_messages (transition_update t) = None"
  "agent_paper_cache (apply_update (transition_update t) s) = agent_paper_cache s"
  "first_round_rag_completed (apply_update (transition_update t) s) = first_round_rag_completed s"
  "rag_enabled (apply_update (transition_update t) s) = rag_enabled s"
  by (simp_all add: transition_update_def update_defs Let_def)

lemma step_turn:
  assumes gr: "create_multi_agent_graph agents = Inr gr"
    and a: "a \<in> set agents"
    and route: "determine_next_node (route_picks e) s = Inr a"
    and gen: "generate_agent_response g e s a = Inr (s1, u)"
    and nxt: "determine_next_node (next_picks e) (apply_update u s1) = Inr n"
  shows "run_node g gr e a s = Some (s1, u, n)"
    and "step g gr e (Running a s) =
           (if n = END then Terminated (apply_update u s1) else Running n (apply_update u s1))"
proof -
  note r = role_key_not_reserved[OF graph_valid(6)[OF gr a]]
  have "agent_node g e a s = (s1, u, n)"
    using r by (simp add: agent_node_def route gen determine_merged nxt)
  then show "run_node g gr e a s = Some (s1, u, n)"
    using a by (simp add: run_node_def graph_valid(1)[OF gr])
  then show "step g gr e (Running a s) =
           (if n = END then Terminated (apply_update u s1) else Running n (apply_update u s1))"
    by simp
qed

lemma step_pass:
  assumes gr: "create_multi_agent_graph agents = Inr gr"
    and a: "a \<in> set agents" and q: "q \<in> set agents" and ne: "q \<noteq> a"
    and route: "determine_next_node (route_picks e) s = Inr q"
  shows "run_node g gr e a s = Some (s, empty_update, q)"
    and "step g gr e (Running a s) = Running q s"
proof -
  note r = role_key_not_reserved[OF graph_valid(6)[OF gr q]]
  have "agent_node g e a s = (s, empty_update, q)"
    using r ne by (simp add: agent_node_def route)
  then show "run_node g gr e a s = Some (s, empty_update, q)"
    using a by (simp add: run_node_def graph_valid(1)[OF gr])
  then show "step g gr e (Running a s) = Running q s"
    using r by simp
qed

lemma step_transition:
  assumes gr: "create_multi_agent_graph agents = Inr gr"
    and t: "t \<in> set [''questioning'', ''free_debate'', ''closing'']"
    and nxt: "determine_next_node (next_picks e) (apply_update (transition_update t) s) = Inr n"
  shows "run_node g gr e t s = Some (s, transition_update t, n)"
    and "step g gr e (Running t s) =
           (if n = END then Terminated (apply_update (transition_update t) s)
            else Running n (apply_update (transition_update t) s))"
proof -
  have "t \<notin> set agents"
    using t role_key_not_reserved(1,2,3)[OF graph_valid(6)[OF gr, of t]] by auto
  moreover have "handle_stage_transition e s t ''system'' = (s, transition_update t, n)"
    by (simp add: handle_stage_transition_def determine_merged nxt)
  ultimately show "run_node g gr e t s = Some (s, transition_update t, n)"
    using t by (simp add: run_node_def graph_valid(1)[OF gr])
  then show "step g gr e (Running t s) =
           (if n = END then Terminated (apply_update (transition_update t) s)
            else Running n (apply_update (transition_update t) s))"
    by simp
qed

text \<open>
  The cases of one step from a configuration of a valid run: a participant speaks (in one
  of the four stages), a transition node enters the next stage, or, while a questioner has
  to be drawn, a participant's node passes the turn on to the participant drawn.
\<close>

lemma answered_maps:
  assumes "asked \<noteq> []"
  shows "map questioner (butlast asked @ [(last asked)\<lparr>answer := r\<rparr>]) = map questioner asked"
    and "map target (butlast asked @ [(last asked)\<lparr>answer := r\<rparr>]) = map target asked"
    and "length (butlast asked @ [(last asked)\<lparr>answer := r\<rparr>]) = length asked"
  using assms by (cases asked rule: rev_cases; simp)+

lemma qa_ok_answered:
  assumes "asked \<noteq> []"
  shows "qa_ok agents (butlast asked @ [(last asked)\<lparr>answer := r\<rparr>]) = qa_ok agents asked"
  unfolding qa_ok_def answered_maps[OF assms] ..

lemma consistentD:
  assumes "consistent agents rounds node s"
  shows "active_agents s = agents" and "max_rounds s = rounds" and "0 \<le> stage_progress s"
    and "qa_ok agents (questions_asked s)" and "distinct (retrieval_calls s)"
  using assms by (simp_all add: consistent_def)

lemma step_cases [consumes 4, case_names speak_opening enter_questioning pass speak_question
    speak_answer enter_free_debate speak_free enter_closing speak_closing]:
  assumes gr: "create_multi_agent_graph agents = Inr gr" and r1: "1 \<le> rounds"
    and con: "consistent agents rounds node s" and ne: "node \<noteq> END"
  obtains
    (speak_opening) s1 u where
      "current_stage s = ''opening''" "stage_progress s < int (length agents)"
      "node = agents ! nat (stage_progress s)"
      "generate_agent_response g e s node = Inr (s1, u)"
      "\<exists>n. run_node g gr e node s = Some (s1, u, n)"
      "step g gr e (Running node s) =
         Running (if stage_progress s + 1 < int (length agents)
                  then agents ! nat (stage_progress s + 1) else ''questioning'')
           (apply_update u s1)"
  | (enter_questioning) q where
      "current_stage s = ''opening''" "stage_progress s = int (length agents)"
      "q \<in> set agents"
      "run_node g gr e node s = Some (s, transition_update ''questioning'', q)"
      "step g gr e (Running node s) = Running q (apply_update (transition_update ''questioning'') s)"
  | (pass) q where
      "current_stage s = ''questioning''" "\<not> waiting_for_answer s"
      "length (questions_asked s) < length agents" "q \<in> set agents"
      "run_node g gr e node s = Some (s, empty_update, q)"
      "step g gr e (Running node s) = Running q s"
  | (speak_question) s1 u n where
      "current_stage s = ''questioning''" "\<not> waiting_for_answer s"
      "length (questions_asked s) < length agents"
      "node \<in> set agents"
      "generate_agent_response g e s node = Inr (s1, u)"
      "run_node g gr e node s = Some (s1, u, n)"
      "step g gr e (Running node s) = Running n (apply_update u s1)"
      "n \<in> set agents"
      "waiting_for_answer (apply_update u s1) \<longrightarrow> n = current_target (apply_update u s1)"
      "u_questions_asked u \<noteq> None \<longrightarrow> node \<notin> set (map questioner (questions_asked s))"
  | (speak_answer) s1 u n where
      "current_stage s = ''questioning''" "waiting_for_answer s"
      "node = current_target s" "node \<in> set agents" "questions_asked s \<noteq> []"
      "generate_agent_response g e s node = Inr (s1, u)"
      "run_node g gr e node s = Some (s1, u, n)"
      "step g gr e (Running node s) = Running n (apply_update u s1)"
      "if waiting_for_answer (apply_update u s1) then n = node
       else if length (questions_asked s) < length agents then n \<in> set agents
       else n = ''free_debate''"
  | (enter_free_debate)
      "current_stage s = ''questioning''" "\<not> waiting_for_answer s"
      "length (questions_asked s) = length agents"
      "run_node g gr e node s = Some (s, transition_update ''free_debate'', agents ! 0)"
      "step g gr e (Running node s) =
         Running (agents ! 0) (apply_update (transition_update ''free_debate'') s)"
  | (speak_free) s1 u where
      "current_stage s = ''free_debate''" "stage_progress s < int (length agents) * rounds"
      "length (questions_asked s) = length agents"
      "generate_agent_response g e s node = Inr (s1, u)"
      "\<exists>n. run_node g gr e node s = Some (s1, u, n)"
      "step g gr e (Running node s) =
         Running (if stage_progress s + 1 < int (length agents) * rounds
                  then agents ! nat ((stage_progress s + 1) mod int (length agents))
                  else ''closing'')
           (apply_update u s1)"
  | (enter_closing)
      "current_stage s = ''free_debate''" "stage_progress s = int (length agents) * rounds"
      "length (questions_asked s) = length agents"
      "run_node g gr e node s = Some (s, transition_update ''closing'', agents ! 0)"
      "step g gr e (Running node s) =
         Running (agents ! 0) (apply_update (transition_update ''closing'') s)"
  | (speak_closing) s1 u where
      "current_stage s = ''closing''" "stage_progress s < int (length agents)"
      "length (questions_asked s) = length agents"
      "node = agents ! nat (stage_progress s)"
      "generate_agent_response g e s node = Inr (s1, u)"
      "\<exists>n. run_node g gr e node s = Some (s1, u, n)"
      "step g gr e (Running node s) =
         (if stage_progress s + 1 < int (length agents)
          then Running (agents ! nat (stage_progress s + 1)) (apply_update u s1)
          else Terminated (apply_update u s1))"
proof -
  note v = graph_valid[OF gr]
  note c = consistentD[OF con]
  have n3: "3 \<le> length agents" by (rule v(3))
  have nonempty: "agents \<noteq> []"
  proof
    assume "agents = []"
    with n3 show False by simp
  qed
  have npos: "0 < int (length agents)" using nonempty by simp
  have two: "2 \<le> length agents" using n3 by simp
  have roles: "\<And>a. a \<in> set agents \<Longrightarrow> AVAILABLE_ROLES a \<noteq> None" by (rule v(6))
  have notend: "\<And>a. a \<in> set agents \<Longrightarrow> a \<noteq> END"
    using role_key_not_reserved(4)[OF roles] by blast
  have first: "agents ! 0 \<in> set agents" using nonempty by simp
  consider (O) "current_stage s = ''opening''" | (Q) "current_stage s = ''questioning''"
    | (F) "current_stage s = ''free_debate''" | (C) "current_stage s = ''closing''"
    using con by (auto simp: consistent_def)
  then show ?thesis
  proof cases
    case O
    from con O have le: "stage_progress s \<le> int (length agents)"
      and node: "node = (if stage_progress s < int (length agents)
                 then agents ! nat (stage_progress s) else ''questioning'')"
      by (auto simp: consistent_def)
    show ?thesis
    proof (cases "stage_progress s < int (length agents)")
      case True
      then have nd: "node = agents ! nat (stage_progress s)" using node by simp
      have mem: "node \<in> set agents" unfolding nd using True c(3) by simp
      have route: "determine_next_node (route_picks e) s = Inr node"
        using det_opening[OF O c(3)] True nd by (simp add: c(1))
      from gen_total[OF roles[OF mem]] obtain s1 u where
        gen: "generate_agent_response g e s node = Inr (s1, u)" by blast
      note t = opening_turn[OF gen O]
      let ?n = "if stage_progress s + 1 < int (length agents)
                then agents ! nat (stage_progress s + 1) else ''questioning''"
      have nxt: "determine_next_node (next_picks e) (apply_update u s1) = Inr ?n"
        using det_opening[of "apply_update u s1" "next_picks e"] c(3)
        by (simp add: t c(1))
      have "?n \<noteq> END"
        using notend[of "agents ! nat (stage_progress s + 1)"] c(3)
        by (auto simp: END_def)
      then show ?thesis
        using speak_opening[OF O True nd gen] step_turn[OF gr mem route gen nxt] by auto
    next
      case False
      then have sp: "stage_progress s = int (length agents)" using le by simp
      have nd: "node = ''questioning''" using node False by simp
      let ?s' = "apply_update (transition_update ''questioning'') s"
      have ok': "qa_ok (active_agents ?s') (questions_asked ?s')"
        by (simp add: transition_fields qa_ok_def)
      obtain q t where q: "determine_next_node (next_picks e) ?s' = Inr q"
        "q \<in> set (active_agents ?s')"
        using det_asking[of ?s' "next_picks e"] ok' v(5) two nonempty
        by (auto simp: transition_fields c(1))
      then have qm: "q \<in> set agents" by (simp add: transition_fields c(1))
      show ?thesis
        using enter_questioning[OF O sp qm]
          step_transition[OF gr _ q(1), of g] notend[OF qm] by (simp add: nd)
    qed
  next
    case Q
    show ?thesis
    proof (cases "waiting_for_answer s")
      case True
      from con Q True have tg: "current_target s \<in> set agents" and nd: "node = current_target s"
        and qne: "questions_asked s \<noteq> []"
        by (auto simp: consistent_def)
      have mem: "node \<in> set agents" using tg nd by simp
      have nonnil: "node \<noteq> []" using role_key_not_reserved(5)[OF roles[OF mem]] .
      have route: "determine_next_node (route_picks e) s = Inr node"
        using det_waiting[OF Q True, of "route_picks e"] tg nonnil nd by (simp add: c(1))
      from gen_total[OF roles[OF mem]] obtain s1 u where
        gen: "generate_agent_response g e s node = Inr (s1, u)" by blast
      note t = answer_turn[OF gen Q True nd[symmetric]]
      let ?s' = "apply_update u s1"
      show ?thesis
      proof (cases "waiting_for_answer ?s'")
        case w: True
        have tg': "current_target ?s' = node" using t(11) w nd by auto
        have nxt: "determine_next_node (next_picks e) ?s' = Inr node"
          using det_waiting[OF t(1) w, of "next_picks e"] tg' nonnil mem by (simp add: t c(1))
        show ?thesis
          using speak_answer[OF Q True nd mem qne gen] step_turn[OF gr mem route gen nxt]
            notend[OF mem] w by simp
      next
        case w: False
        from t(11) w obtain r where
          qa': "questions_asked ?s' = butlast (questions_asked s) @ [(last (questions_asked s))\<lparr>answer := r\<rparr>]"
          by auto
        have len': "length (questions_asked ?s') = length (questions_asked s)"
          unfolding qa' by (rule answered_maps(3)[OF qne])
        have ok': "qa_ok agents (questions_asked ?s')"
          unfolding qa' using c(4) by (simp only: qa_ok_answered[OF qne])
        show ?thesis
        proof (cases "length (questions_asked s) < length agents")
          case lt: True
          obtain q where q: "determine_next_node (next_picks e) ?s' = Inr q" "q \<in> set agents"
            using det_asking[OF t(1) w, of "next_picks e"] ok' v(5) two lt len'
            by (auto simp: t c(1))
          show ?thesis
            using speak_answer[OF Q True nd mem qne gen] step_turn[OF gr mem route gen q(1)]
              notend[OF q(2)] w lt q(2) by simp
        next
          case ge: False
          have nxt: "determine_next_node (next_picks e) ?s' = Inr ''free_debate''"
            using det_done[OF t(1) w, of "next_picks e"] ge len' by (simp add: t c(1))
          show ?thesis
            using speak_answer[OF Q True nd mem qne gen] step_turn[OF gr mem route gen nxt]
              w ge by (simp add: END_def)
        qed
      qed
    next
      case False
      show ?thesis
      proof (cases "length (questions_asked s) < length agents")
        case lt: True
        from con Q False lt have mem: "node \<in> set agents" by (auto simp: consistent_def)
        obtain q where q: "determine_next_node (route_picks e) s = Inr q" "q \<in> set agents"
          "q \<in> set (min_authored_pool agents (questions_asked s))"
          using det_asking[OF Q False, of "route_picks e"] c(4) v(5) two lt
          by (auto simp: c(1))
        show ?thesis
        proof (cases "q = node")
          case ne: False
          show ?thesis
            using pass[OF Q False lt q(2)] step_pass[OF gr mem q(2) ne q(1), of g] by simp
        next
          case eq: True
          from gen_total[OF roles[OF mem]] obtain s1 u where
            gen: "generate_agent_response g e s node = Inr (s1, u)" by blast
          have nw: "\<not> (waiting_for_answer s \<and> current_target s = node)" using False by simp
          note t = question_turn[OF gen Q nw]
          let ?s' = "apply_update u s1"
          have route: "determine_next_node (route_picks e) s = Inr node" using q(1) eq by simp
          from t(11) show ?thesis
          proof
            assume w: "u_questions_asked u = None \<and>
              questions_asked ?s' = questions_asked s \<and>
              waiting_for_answer ?s' = waiting_for_answer s \<and>
              current_target ?s' = current_target s"
            then have nw': "\<not> waiting_for_answer ?s'" using False by simp
            obtain n where n: "determine_next_node (next_picks e) ?s' = Inr n" "n \<in> set agents"
              using det_asking[OF t(1) nw', of "next_picks e"] c(4) v(5) two lt w
              by (auto simp: t c(1))
            show ?thesis
              using speak_question[OF Q False lt mem gen] step_turn[OF gr mem route gen n(1)]
                notend[OF n(2)] n(2) nw' w by simp
          next
            assume "\<exists>t r. select_next_questioner_and_target (active_agents s) (questions_asked s)
                   (question_picks e) = Inr (node, t) \<and>
                 u_questions_asked u \<noteq> None \<and>
                 questions_asked ?s' = questions_asked s @
                   [\<lparr>questioner = node, target = t, question = r, answer = []\<rparr>] \<and>
                 waiting_for_answer ?s' \<and> current_target ?s' = t \<and>
                 deepseek_ready g \<and> inference_succeeds e"
            then obtain tg where sel: "select_next_questioner_and_target agents (questions_asked s)
                   (question_picks e) = Inr (node, tg)"
              and w': "waiting_for_answer ?s'" and tg: "current_target ?s' = tg"
              by (auto simp: c(1))
            from select_ok[OF v(5) two c(4), of "question_picks e"] sel
            have tgm: "tg \<in> set agents"
              and pool: "node \<in> set (min_authored_pool agents (questions_asked s))"
              by auto
            have fresh: "node \<notin> set (map questioner (questions_asked s))"
              using pool_not_asked[OF v(5) c(4) lt pool] .
            have tnn: "tg \<noteq> []" using role_key_not_reserved(5)[OF roles[OF tgm]] .
            have nxt: "determine_next_node (next_picks e) ?s' = Inr tg"
              using det_waiting[OF t(1) w', of "next_picks e"] tg tgm tnn by (simp add: t c(1))
            show ?thesis
              using speak_question[OF Q False lt mem gen] step_turn[OF gr mem route gen nxt]
                notend[OF tgm] tgm tg fresh by simp
          qed
        qed
      next
        case ge: False
        from con Q False ge have nd: "node = ''free_debate''" by (auto simp: consistent_def)
        have len: "length (questions_asked s) = length agents"
          using ge c(4) by (simp add: qa_ok_def)
        let ?s' = "apply_update (transition_update ''free_debate'') s"
        have pos: "0 < int (length agents) * rounds" using npos r1 by simp
        have nxt: "determine_next_node (next_picks e) ?s' = Inr (agents ! 0)"
          using det_free_debate[of ?s' "next_picks e"] nonempty pos
          by (simp add: transition_fields c(1) c(2))
        show ?thesis
          using enter_free_debate[OF Q False len] step_transition[OF gr _ nxt, of g]
            notend[OF first] by (simp add: nd)
      qed
    qed
  next
    case F
    from con F have len: "length (questions_asked s) = length agents"
      and le: "stage_progress s \<le> int (length agents) * rounds"
      and node: "node = (if stage_progress s < int (length agents) * rounds
                 then agents ! nat (stage_progress s mod int (length agents)) else ''closing'')"
      by (auto simp: consistent_def)
    show ?thesis
    proof (cases "stage_progress s < int (length agents) * rounds")
      case True
      then have nd: "node = agents ! nat (stage_progress s mod int (length agents))"
        using node by simp
      have "nat (stage_progress s mod int (length agents)) < length agents"
        using npos by (simp add: nat_less_iff)
      then have mem: "node \<in> set agents" unfolding nd by simp
      have route: "determine_next_node (route_picks e) s = Inr node"
        using det_free_debate[OF F c(3), of "route_picks e"] nonempty True nd
        by (simp add: c(1) c(2))
      from gen_total[OF roles[OF mem]] obtain s1 u where
        gen: "generate_agent_response g e s node = Inr (s1, u)" by blast
      note t = free_debate_turn[OF gen F]
      let ?n = "if stage_progress s + 1 < int (length agents) * rounds
                then agents ! nat ((stage_progress s + 1) mod int (length agents))
                else ''closing''"
      have nxt: "determine_next_node (next_picks e) (apply_update u s1) = Inr ?n"
        using det_free_debate[of "apply_update u s1" "next_picks e"] c(3) nonempty
        by (simp add: t c(1) c(2))
      have "nat ((stage_progress s + 1) mod int (length agents)) < length agents"
        using npos by (simp add: nat_less_iff)
      then have "?n \<noteq> END"
        using notend[of "agents ! nat ((stage_progress s + 1) mod int (length agents))"]
        by (auto simp: END_def)
      then show ?thesis
        using speak_free[OF F True len gen] step_turn[OF gr mem route gen nxt] by auto
    next
      case False
      then have sp: "stage_progress s = int (length agents) * rounds" using le by simp
      have nd: "node = ''closing''" using node False by simp
      let ?s' = "apply_update (transition_update ''closing'') s"
      have nxt: "determine_next_node (next_picks e) ?s' = Inr (agents ! 0)"
        using det_closing[of ?s' "next_picks e"] npos
        by (simp add: transition_fields c(1))
      show ?thesis
        using enter_closing[OF F sp len] step_transition[OF gr _ nxt, of g]
          notend[OF first] by (simp add: nd)
    qed
  next
    case C
    from con C have len: "length (questions_asked s) = length agents"
      and le: "stage_progress s \<le> int (length agents)"
      and node: "node = (if stage_progress s < int (length agents)
                 then agents ! nat (stage_progress s) else END)"
      by (auto simp: consistent_def)
    have lt: "stage_progress s < int (length agents)"
      using node ne by (cases "stage_progress s < int (length agents)") simp_all
    have nd: "node = agents ! nat (stage_progress s)" using node lt by simp
    have mem: "node \<in> set agents" unfolding nd using lt c(3) by simp
    have route: "determine_next_node (route_picks e) s = Inr node"
      using det_closing[OF C c(3)] lt nd by (simp add: c(1))
    from gen_total[OF roles[OF mem]] obtain s1 u where
      gen: "generate_agent_response g e s node = Inr (s1, u)" by blast
    note t = closing_turn[OF gen C]
    let ?n = "if stage_progress s + 1 < int (length agents)
              then agents ! nat (stage_progress s + 1) else END"
    have nxt: "determine_next_node (next_picks e) (apply_update u s1) = Inr ?n"
      using det_closing[of "apply_update u s1" "next_picks e"] c(3)
      by (simp add: t c(1))
    have "stage_progress s + 1 < int (length agents) \<Longrightarrow> ?n \<noteq> END"
      using notend[of "agents ! nat (stage_progress s + 1)"] c(3) by auto
    then show ?thesis
      using speak_closing[OF C lt len nd gen] step_turn[OF gr mem route gen nxt] by auto
  qed
qed

subsection \<open>Every step keeps node and state consistent\<close>

lemma agent_not_end:
  "create_multi_agent_graph agents = Inr gr \<Longrightarrow> a \<in> set agents \<Longrightarrow> a \<noteq> END"
  using role_key_not_reserved(4)[OF graph_valid(6)] by blast

lemma nth_notin_take:
  "distinct xs \<Longrightarrow> i < length xs \<Longrightarrow> xs ! i \<notin> set (take i xs)"
  by (auto simp: in_set_conv_nth nth_eq_iff_index_eq)

lemma take_nat_Suc:
  "0 \<le> k \<Longrightarrow> k < int (length xs) \<Longrightarrow> take (nat (k + 1)) xs = take (nat k) xs @ [xs ! nat k]"
  by (simp add: nat_add_distrib take_Suc_conv_app_nth)

lemma step_consistent:
  assumes gr: "create_multi_agent_graph agents = Inr gr" and r1: "1 \<le> rounds"
    and con: "consistent_outcome agents rounds c"
  shows "consistent_outcome agents rounds (step g gr e c)"
proof (cases c)
  case (Running node s)
  then have ne: "node \<noteq> END" and cs: "consistent agents rounds node s" using con by simp_all
  note v = graph_valid[OF gr]
  note c = consistentD[OF cs]
  have nonempty: "agents \<noteq> []"
  proof
    assume "agents = []"
    with v(3) show False by simp
  qed
  have first: "agents ! 0 \<in> set agents" using nonempty by simp
  from gr r1 cs ne show ?thesis
  proof (cases rule: step_cases[where g=g and e=e])
    case (speak_opening s1 u)
    note t = opening_turn[OF speak_opening(4,1)]
    have k: "nat (stage_progress s) < length agents" using speak_opening(2) c(3) by simp
    have sub: "set (retrieval_calls s) \<subseteq> set (take (nat (stage_progress s)) agents)"
      using cs speak_opening(1) by (auto simp: consistent_def)
    have fresh: "node \<notin> set (retrieval_calls s)"
      using nth_notin_take[OF v(5) k] sub speak_opening(3) by auto
    have tk: "take (nat (stage_progress s + 1)) agents = take (nat (stage_progress s)) agents @ [node]"
      using take_nat_Suc[OF c(3) speak_opening(2)] speak_opening(3) by simp
    have nxt: "stage_progress s + 1 < int (length agents) \<Longrightarrow>
          agents ! nat (stage_progress s + 1) \<noteq> END"
      using agent_not_end[OF gr, of "agents ! nat (stage_progress s + 1)"] c(3) by simp
    show ?thesis
      unfolding Running speak_opening(6)
      using t(12) c sub fresh speak_opening(2) nxt
      by (auto simp: consistent_def t(1-11) tk END_def)
  next
    case (enter_questioning q)
    show ?thesis
      unfolding Running enter_questioning(5)
      using c agent_not_end[OF gr enter_questioning(3)] enter_questioning(3) nonempty
      by (simp add: consistent_def transition_fields qa_ok_def)
  next
    case (pass q)
    show ?thesis
      unfolding Running pass(6)
      using cs agent_not_end[OF gr pass(4)] pass by (simp add: consistent_def)
  next
    case (speak_question s1 u n)
    have nw: "\<not> (waiting_for_answer s \<and> current_target s = node)" using speak_question(2) by simp
    note t = question_turn[OF speak_question(5,1) nw]
    from t(11) show ?thesis
    proof
      assume w: "u_questions_asked u = None \<and>
          questions_asked (apply_update u s1) = questions_asked s \<and>
          waiting_for_answer (apply_update u s1) = waiting_for_answer s \<and>
          current_target (apply_update u s1) = current_target s"
      show ?thesis
        unfolding Running speak_question(7)
        using c agent_not_end[OF gr speak_question(8)] speak_question(2,3,8) w
        by (simp add: consistent_def t(1-10))
    next
      assume "\<exists>t r. select_next_questioner_and_target (active_agents s) (questions_asked s)
                   (question_picks e) = Inr (node, t) \<and>
                 u_questions_asked u \<noteq> None \<and>
                 questions_asked (apply_update u s1) = questions_asked s @
                   [\<lparr>questioner = node, target = t, question = r, answer = []\<rparr>] \<and>
                 waiting_for_answer (apply_update u s1) \<and>
                 current_target (apply_update u s1) = t \<and>
                 deepseek_ready g \<and> inference_succeeds e"
      then obtain tg r where a: "u_questions_asked u \<noteq> None"
        and qa': "questions_asked (apply_update u s1) = questions_asked s @
                   [\<lparr>questioner = node, target = tg, question = r, answer = []\<rparr>]"
        and w': "waiting_for_answer (apply_update u s1)"
        and tg: "current_target (apply_update u s1) = tg" by blast
      have ntg: "n = tg" using speak_question(9) w' tg by simp
      have fresh: "node \<notin> set (map questioner (questions_asked s))"
        using speak_question(10) a by simp
      have ok': "qa_ok agents (questions_asked (apply_update u s1))"
        using c(4) fresh speak_question(3,4,8) ntg
        by (auto simp: qa_ok_def qa')
      show ?thesis
        unfolding Running speak_question(7)
        using c(1,2,3,5) agent_not_end[OF gr speak_question(8)] speak_question(8) w' tg ntg ok'
        by (simp add: consistent_def t(1-10) qa')
    qed
  next
    case (speak_answer s1 u n)
    note t = answer_turn[OF speak_answer(6,1,2) speak_answer(3)[symmetric]]
    have nE: "n \<noteq> END"
      using speak_answer(9) agent_not_end[OF gr, of n] agent_not_end[OF gr speak_answer(4)]
      by (auto simp: END_def split: if_splits)
    from t(11) show ?thesis
    proof
      assume w: "u_questions_asked u = None \<and>
          questions_asked (apply_update u s1) = questions_asked s \<and>
          waiting_for_answer (apply_update u s1) \<and>
          current_target (apply_update u s1) = current_target s"
      show ?thesis
        unfolding Running speak_answer(8)
        using c nE speak_answer(3,4,5,9) w
        by (simp add: consistent_def t(1-10))
    next
      assume "\<exists>r. u_questions_asked u \<noteq> None \<and> questions_asked s \<noteq> [] \<and>
               questions_asked (apply_update u s1) =
                 butlast (questions_asked s) @ [(last (questions_asked s))\<lparr>answer := r\<rparr>] \<and>
               \<not> waiting_for_answer (apply_update u s1) \<and>
               current_target (apply_update u s1) = [] \<and>
               deepseek_ready g \<and> inference_succeeds e"
      then obtain r where
        qa': "questions_asked (apply_update u s1) =
                 butlast (questions_asked s) @ [(last (questions_asked s))\<lparr>answer := r\<rparr>]"
        and w': "\<not> waiting_for_answer (apply_update u s1)" by blast
      have ok': "qa_ok agents (questions_asked (apply_update u s1))"
        unfolding qa' using c(4) by (simp only: qa_ok_answered[OF speak_answer(5)])
      have len': "length (questions_asked (apply_update u s1)) = length (questions_asked s)"
        unfolding qa' by (rule answered_maps(3)[OF speak_answer(5)])
      show ?thesis
        unfolding Running speak_answer(8)
        using c(1,2,3,5) nE speak_answer(9) w' ok' len'
        by (simp add: consistent_def t(1-10))
    qed
  next
    case enter_free_debate
    show ?thesis
      unfolding Running enter_free_debate(5)
      using c r1 agent_not_end[OF gr first] enter_free_debate(3) nonempty
      by (simp add: consistent_def transition_fields)
  next
    case (speak_free s1 u)
    note t = free_debate_turn[OF speak_free(4,1)]
    have "nat ((stage_progress s + 1) mod int (length agents)) < length agents"
      using nonempty by (simp add: nat_less_iff)
    then have nxt: "agents ! nat ((stage_progress s + 1) mod int (length agents)) \<noteq> END"
      using agent_not_end[OF gr] by simp
    show ?thesis
      unfolding Running speak_free(6)
      using c speak_free(2,3) nxt
      by (simp add: consistent_def t END_def)
  next
    case enter_closing
    show ?thesis
      unfolding Running enter_closing(5)
      using c agent_not_end[OF gr first] enter_closing(3) nonempty
      by (simp add: consistent_def transition_fields)
  next
    case (speak_closing s1 u)
    note t = closing_turn[OF speak_closing(5,1)]
    have nxt: "stage_progress s + 1 < int (length agents) \<Longrightarrow>
          agents ! nat (stage_progress s + 1) \<noteq> END"
      using agent_not_end[OF gr, of "agents ! nat (stage_progress s + 1)"] c(3) by simp
    show ?thesis
      unfolding Running speak_closing(7)
      using c speak_closing(2,3) nxt
      by (simp add: consistent_def t)
  qed
next
  case (Terminated s)
  then show ?thesis using con by simp
next
  case Crashed
  then show ?thesis using con by simp
qed

subsection \<open>Counting turns\<close>

text \<open>
  Every step keeps the sum of the turns counted and the turns owed, except that a wasted
  questioning turn adds one; the same holds for the length of the transcript with the
  transitions still to come.
\<close>

lemma wasted_turn_run_node:
  assumes "run_node g gr e node s = Some (s1, u, n)"
  shows "wasted_turn g gr e (Running node s) \<longleftrightarrow>
           current_stage s = ''questioning'' \<and> u_total_messages u \<noteq> None \<and>
           u_questions_asked u = None"
  using assms by (simp add: wasted_turn_def)

lemma step_balance:
  assumes gr: "create_multi_agent_graph agents = Inr gr" and r1: "1 \<le> rounds"
    and con: "consistent_outcome agents rounds c"
  shows "balance (step g gr e c) = balance c + (if wasted_turn g gr e c then 1 else 0)"
    and "transcript_balance (step g gr e c) =
           transcript_balance c + (if wasted_turn g gr e c then 1 else 0)"
proof -
  have "balance (step g gr e c) = balance c + (if wasted_turn g gr e c then 1 else 0) \<and>
        transcript_balance (step g gr e c) =
           transcript_balance c + (if wasted_turn g gr e c then 1 else 0)"
  proof (cases c)
    case (Running node s)
    then have ne: "node \<noteq> END" and cs: "consistent agents rounds node s" using con by simp_all
    note c = consistentD[OF cs]
    from gr r1 cs ne show ?thesis
    proof (cases rule: step_cases[where g=g and e=e])
      case (speak_opening s1 u)
      note t = opening_turn[OF speak_opening(4,1)]
      from speak_opening(5) obtain n where rn: "run_node g gr e node s = Some (s1, u, n)" by blast
      show ?thesis
        unfolding Running speak_opening(6) wasted_turn_run_node[OF rn]
        using speak_opening(1)
        by (simp add: balance_def transcript_balance_def owed_def Let_def transitions_left_def t(1-11))
    next
      case (enter_questioning q)
      show ?thesis
        unfolding Running enter_questioning(5) wasted_turn_run_node[OF enter_questioning(4)]
        using enter_questioning(1,2) c(1)
        by (simp add: balance_def transcript_balance_def owed_def Let_def transitions_left_def
              transition_fields)
    next
      case (pass q)
      show ?thesis
        unfolding Running pass(6) wasted_turn_run_node[OF pass(5)]
        by (simp add: empty_update_def balance_def transcript_balance_def)
    next
      case (speak_question s1 u n)
      have nw: "\<not> (waiting_for_answer s \<and> current_target s = node)" using speak_question(2) by simp
      note t = question_turn[OF speak_question(5,1) nw]
      show ?thesis
        unfolding Running speak_question(7) wasted_turn_run_node[OF speak_question(6)]
        using t(11) speak_question(1,2)
        by (auto simp: balance_def transcript_balance_def owed_def Let_def transitions_left_def
              t(1-10))
    next
      case (speak_answer s1 u n)
      note t = answer_turn[OF speak_answer(6,1,2) speak_answer(3)[symmetric]]
      have len: "\<And>r. length (butlast (questions_asked s) @ [(last (questions_asked s))\<lparr>answer := r\<rparr>])
          = length (questions_asked s)"
        by (rule answered_maps(3)[OF speak_answer(5)])
      show ?thesis
        unfolding Running speak_answer(8) wasted_turn_run_node[OF speak_answer(7)]
        using t(11) speak_answer(1,2) len
        by (auto simp: balance_def transcript_balance_def owed_def Let_def transitions_left_def t(1-10)
              simp del: length_append length_butlast)
    next
      case enter_free_debate
      show ?thesis
        unfolding Running enter_free_debate(5) wasted_turn_run_node[OF enter_free_debate(4)]
        using enter_free_debate(1,2,3) c(1)
        by (simp add: balance_def transcript_balance_def owed_def Let_def transitions_left_def
              transition_fields)
    next
      case (speak_free s1 u)
      note t = free_debate_turn[OF speak_free(4,1)]
      from speak_free(5) obtain n where rn: "run_node g gr e node s = Some (s1, u, n)" by blast
      show ?thesis
        unfolding Running speak_free(6) wasted_turn_run_node[OF rn]
        using speak_free(1)
        by (simp add: balance_def transcript_balance_def owed_def Let_def transitions_left_def t)
    next
      case enter_closing
      show ?thesis
        unfolding Running enter_closing(5) wasted_turn_run_node[OF enter_closing(4)]
        using enter_closing(1,2) c(1,2)
        by (simp add: balance_def transcript_balance_def owed_def Let_def transitions_left_def
              transition_fields)
    next
      case (speak_closing s1 u)
      note t = closing_turn[OF speak_closing(5,1)]
      from speak_closing(6) obtain n where rn: "run_node g gr e node s = Some (s1, u, n)" by blast
      show ?thesis
        unfolding Running speak_closing(7) wasted_turn_run_node[OF rn]
        using speak_closing(1)
        by (simp add: balance_def transcript_balance_def owed_def Let_def transitions_left_def t)
    qed
  next
    case (Terminated s)
    then show ?thesis by (simp add: wasted_turn_def)
  next
    case Crashed
    then show ?thesis by (simp add: wasted_turn_def)
  qed
  then show "balance (step g gr e c) = balance c + (if wasted_turn g gr e c then 1 else 0)"
    and "transcript_balance (step g gr e c) =
           transcript_balance c + (if wasted_turn g gr e c then 1 else 0)"
    by simp_all
qed

lemma exec_Cons: "exec g gr (e # es) c = exec g gr es (step g gr e c)"
  by (simp add: exec_def)

lemma exec_Nil: "exec g gr [] c = c"
  by (simp add: exec_def)

lemma exec_snoc: "exec g gr (es @ [e]) c = step g gr e (exec g gr es c)"
  by (simp add: exec_def)

lemma exec_consistent:
  assumes gr: "create_multi_agent_graph agents = Inr gr" and r1: "1 \<le> rounds"
  shows "consistent_outcome agents rounds c \<Longrightarrow> consistent_outcome agents rounds (exec g gr envs c)"
  by (induction envs arbitrary: c) (simp_all add: exec_Nil exec_Cons step_consistent[OF gr r1])

lemma exec_balance:
  assumes gr: "create_multi_agent_graph agents = Inr gr" and r1: "1 \<le> rounds"
  shows "consistent_outcome agents rounds c \<Longrightarrow>
         balance (exec g gr envs c) = balance c + int (wasted_turns g gr envs c) \<and>
         transcript_balance (exec g gr envs c) = transcript_balance c + int (wasted_turns g gr envs c)"
proof (induction envs arbitrary: c)
  case Nil
  then show ?case by (simp add: exec_Nil)
next
  case (Cons e es)
  have con': "consistent_outcome agents rounds (step g gr e c)"
    using step_consistent[OF gr r1 Cons.prems] .
  show ?case
    using Cons.IH[OF con'] step_balance[OF gr r1 Cons.prems, of g e]
    by (simp add: exec_Cons)
qed

lemma agents_nonempty:
  assumes "create_multi_agent_graph agents = Inr gr"
  shows "agents \<noteq> []"
proof
  assume "agents = []"
  with graph_valid(3)[OF assms] show False by simp
qed

lemma start_consistent:
  assumes gr: "create_multi_agent_graph agents = Inr gr"
  shows "consistent_outcome agents rounds (start gr (initial_state topic rounds agents enable_rag max_refs))"
proof -
  note v = graph_valid[OF gr]
  note nonempty = agents_nonempty[OF gr]
  have "hd agents \<in> set agents" using nonempty by simp
  then have "hd agents \<noteq> END" by (rule agent_not_end[OF gr])
  then show ?thesis
    using nonempty
    by (simp add: start_def v(2) initial_state_def consistent_def qa_ok_def hd_conv_nth)
qed

lemma start_balance:
  "balance (start gr (initial_state topic rounds agents enable_rag max_refs))
     = int (length agents) * (4 + rounds)"
  "transcript_balance (start gr (initial_state topic rounds agents enable_rag max_refs))
     = int (length agents) * (4 + rounds) + 3"
  by (simp_all add: balance_def transcript_balance_def start_def initial_state_def owed_def
        Let_def transitions_left_def algebra_simps)

lemma consistent_end:
  assumes gr: "create_multi_agent_graph agents = Inr gr"
    and con: "consistent agents rounds END s"
  shows "current_stage s = ''closing''" and "stage_progress s = int (length agents)"
    and "length (questions_asked s) = length agents"
proof -
  have notin: "END \<notin> set agents" using agent_not_end[OF gr] by blast
  note nonempty = agents_nonempty[OF gr]
  have m: "nat (stage_progress s mod int (length agents)) < length agents"
    using nonempty by (simp add: nat_less_iff)
  then have m': "agents ! nat (stage_progress s mod int (length agents)) \<noteq> END"
    using notin nth_mem by metis
  have k': "agents ! nat (stage_progress s) \<noteq> END"
    if "stage_progress s < int (length agents)" "0 \<le> stage_progress s"
  proof -
    have "nat (stage_progress s) < length agents" using that by simp
    then have "agents ! nat (stage_progress s) \<in> set agents" by (rule nth_mem)
    then show ?thesis using notin by metis
  qed
  consider (O) "current_stage s = ''opening''" | (Q) "current_stage s = ''questioning''"
    | (F) "current_stage s = ''free_debate''" | (C) "current_stage s = ''closing''"
    using con by (auto simp: consistent_def)
  then have a: "current_stage s = ''closing'' \<and> stage_progress s = int (length agents) \<and>
      length (questions_asked s) = length agents"
  proof cases
    case O
    then show ?thesis using con k' by (auto simp: consistent_def END_def split: if_splits)
  next
    case Q
    then show ?thesis using con notin by (auto simp: consistent_def END_def split: if_splits)
  next
    case F
    then show ?thesis using con m' by (auto simp: consistent_def END_def split: if_splits)
  next
    case C
    then show ?thesis using con k' by (auto simp: consistent_def split: if_splits)
  qed
  then show "current_stage s = ''closing''" and "stage_progress s = int (length agents)"
    and "length (questions_asked s) = length agents" by simp_all
qed

subsection \<open>The example debate\<close>

text \<open>
  Three participants and two rounds, every draw 0, every collaborator answering: the run
  ends after 21 node executions.
\<close>

lemma ex_graph_created: "create_multi_agent_graph ex_agents = Inr ex_graph"
  by code_simp

lemma ex_run_terminates:
  "exec ex_globals ex_graph (replicate 21 ex_env) (start ex_graph ex_state)
     = Terminated (the (outcome_state
         (exec ex_globals ex_graph (replicate 21 ex_env) (start ex_graph ex_state))))"
  by code_simp

lemma ex_run_questioning_done:
  "exec ex_globals ex_graph (replicate 10 ex_env) (start ex_graph ex_state)
     = Running ''free_debate'' (the (outcome_state
         (exec ex_globals ex_graph (replicate 10 ex_env) (start ex_graph ex_state))))"
  by code_simp



lemma ex_final_facts:
  "current_stage (the (outcome_state
       (exec ex_globals ex_graph (replicate 21 ex_env) (start ex_graph ex_state)))) = ''closing''"
  "terminated (exec ex_globals ex_graph (replicate 21 ex_env) (start ex_graph ex_state))"
  by code_simp+

text \<open>
  The run in which the second opening turn and the last closing turn fail also ends after
  21 node executions.
\<close>

lemma ex_two_failures_facts:
  "outcome_state (exec ex_globals ex_graph ex_envs_two_failures (start ex_graph ex_state))
     = Some (the (outcome_state
         (exec ex_globals ex_graph ex_envs_two_failures (start ex_graph ex_state))))"
  "current_stage (the (outcome_state
       (exec ex_globals ex_graph ex_envs_two_failures (start ex_graph ex_state)))) = ''closing''"
  "terminated (exec ex_globals ex_graph ex_envs_two_failures (start ex_graph ex_state))"
  "failed_speakers ''opening'' ex_globals ex_graph ex_envs_two_failures (start ex_graph ex_state)
     = [''sociologist'']"
  "failed_speakers ''closing'' ex_globals ex_graph ex_envs_two_failures (start ex_graph ex_state)
     = [''ethicist'']"
  by code_simp+


text \<open>
  After the three opening turns and the transition the runtime is at the node of the first
  participant, in the questioning stage with an empty ledger: all three participants are
  tied. With the draws of \<open>ex_env_other_draw\<close> the scheduler names the first participant
  and the selection of the question generator names the second.
\<close>

lemma ex_redraw_state:
  "exec ex_globals ex_graph (replicate 4 ex_env) (start ex_graph ex_state)
     = Running ''tech_expert'' (the (outcome_state
         (exec ex_globals ex_graph (replicate 4 ex_env) (start ex_graph ex_state))))"
  "current_stage (the (outcome_state
       (exec ex_globals ex_graph (replicate 4 ex_env) (start ex_graph ex_state)))) = ''questioning''"
  "\<not> waiting_for_answer (the (outcome_state
       (exec ex_globals ex_graph (replicate 4 ex_env) (start ex_graph ex_state))))"
  "1 < length (min_authored_pool
       (active_agents (the (outcome_state
          (exec ex_globals ex_graph (replicate 4 ex_env) (start ex_graph ex_state)))))
       (questions_asked (the (outcome_state
          (exec ex_globals ex_graph (replicate 4 ex_env) (start ex_graph ex_state))))))"
  "determine_next_node (route_picks ex_env_other_draw) (the (outcome_state
       (exec ex_globals ex_graph (replicate 4 ex_env) (start ex_graph ex_state))))
     = Inr ''tech_expert''"
  "select_next_questioner_and_target
       (active_agents (the (outcome_state
          (exec ex_globals ex_graph (replicate 4 ex_env) (start ex_graph ex_state)))))
       (questions_asked (the (outcome_state
          (exec ex_globals ex_graph (replicate 4 ex_env) (start ex_graph ex_state)))))
       (question_picks ex_env_other_draw)
     = Inr (''sociologist'', ''tech_expert'')"
  by code_simp+


subsection \<open>Reachable configurations and the ledger\<close>

lemma authored_once:
  "distinct (map questioner asked) \<Longrightarrow> a \<in> set (map questioner asked) \<Longrightarrow> authored asked a = 1"
proof (induction asked)
  case Nil
  then show ?case by simp
next
  case (Cons qa asked)
  show ?case
  proof (cases "questioner qa = a")
    case True
    then have "a \<notin> set (map questioner asked)" using Cons.prems(1) by auto
    then have "filter (\<lambda>x. questioner x = a) asked = []" by (auto simp: filter_empty_conv)
    then show ?thesis using True by (simp add: authored_def)
  next
    case False
    then have "authored asked a = 1" using Cons by auto
    then show ?thesis using False by (simp add: authored_def)
  qed
qed

lemma all_authored_once:
  assumes d: "distinct agents" and ok: "qa_ok agents asked" and len: "length asked = length agents"
    and a: "a \<in> set agents"
  shows "authored asked a = 1"
proof -
  have dq: "distinct (map questioner asked)" and sub: "set (map questioner asked) \<subseteq> set agents"
    using ok by (simp_all add: qa_ok_def)
  have "card (set (map questioner asked)) = length asked"
    using dq distinct_card[of "map questioner asked"] by simp
  moreover have "card (set agents) = length agents" using d by (rule distinct_card)
  ultimately have "card (set (map questioner asked)) = card (set agents)" using len by simp
  then have "set (map questioner asked) = set agents"
    using sub by (simp add: card_subset_eq)
  then show ?thesis using authored_once[OF dq] a by simp
qed

lemma consistent_free_debate_node:
  assumes gr: "create_multi_agent_graph agents = Inr gr"
    and con: "consistent agents rounds ''free_debate'' s"
  shows "length (questions_asked s) = length agents"
proof -
  have notin: "''free_debate'' \<notin> set agents"
    using role_key_not_reserved(2)[OF graph_valid(6)[OF gr]] by blast
  have k': "agents ! nat (stage_progress s) \<noteq> ''free_debate''"
    if "stage_progress s < int (length agents)" "0 \<le> stage_progress s"
  proof -
    have "nat (stage_progress s) < length agents" using that by simp
    then have "agents ! nat (stage_progress s) \<in> set agents" by (rule nth_mem)
    then show ?thesis using notin by metis
  qed
  consider (O) "current_stage s = ''opening''" | (Q) "current_stage s = ''questioning''"
    | (F) "current_stage s = ''free_debate''" | (C) "current_stage s = ''closing''"
    using con by (auto simp: consistent_def)
  then show ?thesis
  proof cases
    case O
    then show ?thesis using con k' by (auto simp: consistent_def split: if_splits)
  next
    case Q
    then show ?thesis using con notin by (auto simp: consistent_def qa_ok_def split: if_splits)
  next
    case F
    then show ?thesis using con by (auto simp: consistent_def)
  next
    case C
    then show ?thesis using con by (auto simp: consistent_def)
  qed
qed

lemma reachable_consistent:
  assumes gr: "create_multi_agent_graph agents = Inr gr" and r1: "1 \<le> rounds"
  shows "consistent_outcome agents rounds
           (exec g gr envs (start gr (initial_state topic rounds agents enable_rag max_refs)))"
  by (rule exec_consistent[OF gr r1 start_consistent[OF gr]])

lemma consistent_outcome_state:
  assumes "consistent_outcome agents rounds c" and "outcome_state c = Some s"
  obtains node where "consistent agents rounds node s" and "c = Running node s \<or> (c = Terminated s \<and> node = END)"
  using assms by (cases c) auto

subsection \<open>The context cache along a run\<close>





subsection \<open>The statement archives along a run\<close>

lemma dict_set_new_keys:
  "k \<notin> set (map fst d) \<Longrightarrow> map fst (dict_set d k v) = map fst d @ [k]"
  by (simp add: dict_set_new)

lemma failed_speakers_snoc:
  "failed_speakers stage g gr (es @ [e]) c
     = failed_speakers stage g gr es c @ failed_turn stage g gr e (exec g gr es c)"
  by (induction es arbitrary: c) (simp_all add: exec_Nil exec_Cons)

lemma failed_turn_other_stage:
  "current_stage s \<noteq> stage \<Longrightarrow> failed_turn stage g gr e (Running node s) = []"
  by (simp add: failed_turn_def)

lemma failed_turn_transition:
  "node \<notin> set (agent_nodes gr) \<Longrightarrow> failed_turn stage g gr e (Running node s) = []"
  by (simp add: failed_turn_def)

lemma failed_turn_speaker:
  assumes "current_stage s = stage" and "node \<in> set (agent_nodes gr)"
    and "determine_next_node (route_picks e) s = Inr node"
  shows "failed_turn stage g gr e (Running node s)
           = (if generation_succeeds g e then [] else [node])"
  using assms by (simp add: failed_turn_def)

lemma filter_spoken_failed:
  assumes "a \<notin> set spoken" and "set failed \<subseteq> set spoken"
  shows "filter (\<lambda>x. x \<notin> set (failed @ [a])) (spoken @ [a]) = filter (\<lambda>x. x \<notin> set failed) spoken"
    and "filter (\<lambda>x. x \<notin> set failed) (spoken @ [a]) = filter (\<lambda>x. x \<notin> set failed) spoken @ [a]"
  using assms by (auto intro: filter_cong)

lemma step_statements_ok:
  assumes gr: "create_multi_agent_graph agents = Inr gr" and r1: "1 \<le> rounds"
    and con: "consistent_outcome agents rounds c"
    and so: "\<And>s. outcome_state c = Some s \<Longrightarrow> statements_ok agents fo fc s"
    and os: "outcome_state (step g gr e c) = Some s'"
  shows "statements_ok agents (fo @ failed_turn ''opening'' g gr e c)
           (fc @ failed_turn ''closing'' g gr e c) s'"
proof (cases c)
  case (Running node s)
  then have ne: "node \<noteq> END" and cs: "consistent agents rounds node s" using con by simp_all
  have m: "statements_ok agents fo fc s" using so Running by simp
  note v = graph_valid[OF gr]
  note c = consistentD[OF cs]
  have known: "\<forall>k\<in>set (active_agents s). AVAILABLE_ROLES k \<noteq> None"
    using v(6) c(1) by simp
  from gr r1 cs ne show ?thesis
  proof (cases rule: step_cases[where g=g and e=e])
    case (speak_opening s1 u)
    note t = opening_turn[OF speak_opening(4,1)]
    have k: "nat (stage_progress s) < length agents" using speak_opening(2) c(3) by simp
    have mem: "node \<in> set (agent_nodes gr)"
      unfolding v(1) speak_opening(3) using k by (rule nth_mem)
    have det: "determine_next_node (route_picks e) s = Inr node"
      using det_opening[OF speak_opening(1) c(3)] speak_opening(2,3) c(1) by simp
    have fo': "failed_turn ''opening'' g gr e (Running node s) = (if generation_succeeds g e then [] else [node])"
      by (rule failed_turn_speaker[OF speak_opening(1) mem det])
    have fc': "failed_turn ''closing'' g gr e (Running node s) = []"
      by (rule failed_turn_other_stage) (simp add: speak_opening(1))
    have keys: "map fst (opening_statements s)
                  = filter (\<lambda>a. a \<notin> set fo) (take (nat (stage_progress s)) agents)"
      and sub: "set fo \<subseteq> set (take (nat (stage_progress s)) agents)"
      and ckeys: "map fst (closing_statements s) = []" and csub: "fc = []"
      using m speak_opening(1) by (simp_all add: statements_ok_def Let_def Let_def)
    have fresh0: "node \<notin> set (take (nat (stage_progress s)) agents)"
      unfolding speak_opening(3) by (rule nth_notin_take[OF v(5) k])
    have fresh: "node \<notin> set (map fst (opening_statements s))"
      unfolding keys using fresh0 by simp
    have tk: "take (nat (stage_progress s + 1)) agents = take (nat (stage_progress s)) agents @ [node]"
      using take_nat_Suc[OF c(3) speak_opening(2)] speak_opening(3) by simp
    have s': "s' = apply_update u s1"
      using os unfolding Running speak_opening(6) by simp
    have st: "current_stage s' = ''opening''" "stage_progress s' = stage_progress s + 1"
      "closing_statements s' = closing_statements s"
      unfolding s' by (rule t(1) t(2) t(11))+
    show ?thesis
    proof (cases "generation_succeeds g e")
      case True
      then have "deepseek_ready g \<and> inference_succeeds e" by (simp add: generation_succeeds_def)
      with t(14) known obtain r where
        os': "opening_statements s' = dict_set (opening_statements s) node r"
        unfolding s' by blast
      have "map fst (opening_statements s')
              = filter (\<lambda>a. a \<notin> set fo) (take (nat (stage_progress s + 1)) agents)"
        unfolding os' dict_set_new_keys[OF fresh] keys tk
          filter_spoken_failed(2)[OF fresh0 sub] ..
      then show ?thesis
        unfolding Running using True sub ckeys csub by (auto simp: statements_ok_def Let_def fo' fc' st tk)
    next
      case False
      then have "\<not> deepseek_ready g \<or> \<not> inference_succeeds e"
        by (simp add: generation_succeeds_def)
      from opening_failure[OF speak_opening(4,1) this]
      have os': "opening_statements s' = opening_statements s" unfolding s' .
      have "map fst (opening_statements s')
              = filter (\<lambda>a. a \<notin> set (fo @ [node])) (take (nat (stage_progress s + 1)) agents)"
        unfolding os' keys tk filter_spoken_failed(1)[OF fresh0 sub] ..
      then show ?thesis
        unfolding Running using False sub ckeys csub by (auto simp: statements_ok_def Let_def fo' fc' st tk)
    qed
  next
    case (enter_questioning q)
    have notin: "node \<notin> set (agent_nodes gr)"
    proof -
      have "node = ''questioning''"
        using cs enter_questioning(1,2) by (auto simp: consistent_def)
      then show ?thesis
        unfolding v(1) using role_key_not_reserved(1)[OF v(6)] by blast
    qed
    have f: "failed_turn ''opening'' g gr e (Running node s) = []" "failed_turn ''closing'' g gr e (Running node s) = []"
      by (rule failed_turn_transition[OF notin])+
    show ?thesis
      using os m enter_questioning(1,2) unfolding Running enter_questioning(5) f
      by (auto simp: statements_ok_def Let_def transition_fields)
  next
    case (pass q)
    have f: "failed_turn ''opening'' g gr e (Running node s) = []" "failed_turn ''closing'' g gr e (Running node s) = []"
      by (rule failed_turn_other_stage, simp add: pass(1))+
    show ?thesis using os m unfolding Running pass(6) f by auto
  next
    case (speak_question s1 u n)
    have nw: "\<not> (waiting_for_answer s \<and> current_target s = node)" using speak_question(2) by simp
    note t = question_turn[OF speak_question(5,1) nw]
    have f: "failed_turn ''opening'' g gr e (Running node s) = []" "failed_turn ''closing'' g gr e (Running node s) = []"
      by (rule failed_turn_other_stage, simp add: speak_question(1))+
    show ?thesis
      using os m speak_question(1) unfolding Running speak_question(7) f
      by (auto simp: statements_ok_def Let_def t(1,8,9))
  next
    case (speak_answer s1 u n)
    note t = answer_turn[OF speak_answer(6,1,2) speak_answer(3)[symmetric]]
    have f: "failed_turn ''opening'' g gr e (Running node s) = []" "failed_turn ''closing'' g gr e (Running node s) = []"
      by (rule failed_turn_other_stage, simp add: speak_answer(1))+
    show ?thesis
      using os m speak_answer(1) unfolding Running speak_answer(8) f
      by (auto simp: statements_ok_def Let_def t(1,8,9))
  next
    case enter_free_debate
    have f: "failed_turn ''opening'' g gr e (Running node s) = []" "failed_turn ''closing'' g gr e (Running node s) = []"
      by (rule failed_turn_other_stage, simp add: enter_free_debate(1))+
    show ?thesis
      using os m enter_free_debate(1) unfolding Running enter_free_debate(5) f
      by (auto simp: statements_ok_def Let_def transition_fields)
  next
    case (speak_free s1 u)
    note t = free_debate_turn[OF speak_free(4,1)]
    have f: "failed_turn ''opening'' g gr e (Running node s) = []" "failed_turn ''closing'' g gr e (Running node s) = []"
      by (rule failed_turn_other_stage, simp add: speak_free(1))+
    show ?thesis
      using os m speak_free(1) unfolding Running speak_free(6) f
      by (auto simp: statements_ok_def Let_def t(1,11,12))
  next
    case enter_closing
    have f: "failed_turn ''opening'' g gr e (Running node s) = []" "failed_turn ''closing'' g gr e (Running node s) = []"
      by (rule failed_turn_other_stage, simp add: enter_closing(1))+
    show ?thesis
      using os m enter_closing(1) unfolding Running enter_closing(5) f
      by (auto simp: statements_ok_def Let_def transition_fields)
  next
    case (speak_closing s1 u)
    note t = closing_turn[OF speak_closing(5,1)]
    have k: "nat (stage_progress s) < length agents" using speak_closing(2) c(3) by simp
    have mem: "node \<in> set (agent_nodes gr)"
      unfolding v(1) speak_closing(4) using k by (rule nth_mem)
    have det: "determine_next_node (route_picks e) s = Inr node"
      using det_closing[OF speak_closing(1) c(3)] speak_closing(2,4) c(1) by simp
    have fc': "failed_turn ''closing'' g gr e (Running node s) = (if generation_succeeds g e then [] else [node])"
      by (rule failed_turn_speaker[OF speak_closing(1) mem det])
    have fo': "failed_turn ''opening'' g gr e (Running node s) = []"
      by (rule failed_turn_other_stage) (simp add: speak_closing(1))
    have keys: "map fst (closing_statements s)
                  = filter (\<lambda>a. a \<notin> set fc) (take (nat (stage_progress s)) agents)"
      and sub: "set fc \<subseteq> set (take (nat (stage_progress s)) agents)"
      and okeys: "map fst (opening_statements s) = filter (\<lambda>a. a \<notin> set fo) agents"
      and osub: "set fo \<subseteq> set agents"
      using m speak_closing(1) by (simp_all add: statements_ok_def Let_def Let_def)
    have fresh0: "node \<notin> set (take (nat (stage_progress s)) agents)"
      unfolding speak_closing(4) by (rule nth_notin_take[OF v(5) k])
    have fresh: "node \<notin> set (map fst (closing_statements s))"
      unfolding keys using fresh0 by simp
    have tk: "take (nat (stage_progress s + 1)) agents = take (nat (stage_progress s)) agents @ [node]"
      using take_nat_Suc[OF c(3) speak_closing(2)] speak_closing(4) by simp
    have s': "s' = apply_update u s1"
      using os unfolding Running speak_closing(7) by (auto split: if_splits)
    have st: "current_stage s' = ''closing''" "stage_progress s' = stage_progress s + 1"
      "opening_statements s' = opening_statements s"
      unfolding s' by (rule t(1) t(2) t(11))+
    show ?thesis
    proof (cases "generation_succeeds g e")
      case True
      then have "deepseek_ready g \<and> inference_succeeds e" by (simp add: generation_succeeds_def)
      with t(14) known obtain r where
        cs': "closing_statements s' = dict_set (closing_statements s) node r"
        unfolding s' by blast
      have "map fst (closing_statements s')
              = filter (\<lambda>a. a \<notin> set fc) (take (nat (stage_progress s + 1)) agents)"
        unfolding cs' dict_set_new_keys[OF fresh] keys tk
          filter_spoken_failed(2)[OF fresh0 sub] ..
      then show ?thesis
        unfolding Running using True sub okeys osub by (auto simp: statements_ok_def Let_def fo' fc' st tk)
    next
      case False
      then have "\<not> deepseek_ready g \<or> \<not> inference_succeeds e"
        by (simp add: generation_succeeds_def)
      from closing_failure[OF speak_closing(5,1) this]
      have cs': "closing_statements s' = closing_statements s" unfolding s' .
      have "map fst (closing_statements s')
              = filter (\<lambda>a. a \<notin> set (fc @ [node])) (take (nat (stage_progress s + 1)) agents)"
        unfolding cs' keys tk filter_spoken_failed(1)[OF fresh0 sub] ..
      then show ?thesis
        unfolding Running using False sub okeys osub by (auto simp: statements_ok_def Let_def fo' fc' st tk)
    qed
  qed
next
  case (Terminated s)
  then show ?thesis using os so by (simp add: failed_turn_def)
next
  case Crashed
  then show ?thesis using os by simp
qed

lemma reachable_statements_ok:
  assumes gr: "create_multi_agent_graph agents = Inr gr" and r1: "1 \<le> rounds"
  shows "outcome_state (exec g gr envs (start gr (initial_state topic rounds agents enable_rag max_refs)))
           = Some s \<Longrightarrow>
         statements_ok agents
           (failed_speakers ''opening'' g gr envs
              (start gr (initial_state topic rounds agents enable_rag max_refs)))
           (failed_speakers ''closing'' g gr envs
              (start gr (initial_state topic rounds agents enable_rag max_refs))) s"
proof (induction envs arbitrary: s rule: rev_induct)
  case Nil
  then show ?case by (auto simp: exec_Nil start_def initial_state_def statements_ok_def Let_def Let_def)
next
  case (snoc e envs)
  let ?c = "exec g gr envs (start gr (initial_state topic rounds agents enable_rag max_refs))"
  have con: "consistent_outcome agents rounds ?c" by (rule reachable_consistent[OF gr r1])
  show ?case
    unfolding failed_speakers_snoc
    using step_statements_ok[OF gr r1 con snoc.IH] snoc.prems
    by (simp add: exec_snoc)
qed

subsection \<open>Turns whose generation fails\<close>

text \<open>
  In the opening, free-debate and closing stages a turn whose inference call raises is
  answered by the handler of \<^verbatim>\<open>_generate_agent_response\<close>: an apology under the
  participant's name, counted like any other turn.
\<close>

lemma failed_turn_is_counted:
  assumes "AVAILABLE_ROLES a = Some name" and "deepseek_ready g"
    and "inferred e = InferRaises msg"
    and "current_stage s \<in> set [''opening'', ''free_debate'', ''closing'']"
    and "active_agents s \<noteq> []"
    and "\<forall>k\<in>set (active_agents s). AVAILABLE_ROLES k \<noteq> None"
    and "\<forall>qa\<in>set (questions_asked s). AVAILABLE_ROLES (questioner qa) \<noteq> None \<and>
                                        AVAILABLE_ROLES (target qa) \<noteq> None"
  shows "\<exists>s1. generate_agent_response g e s a
           = Inr (s1, turn_update s (name @ cannot_speak_text @ msg))"
proof -
  note known = get_other_participants_known[OF assms(6)]
    format_opening_statements_known[OF assms(6)]
    format_agent_history_known[OF assms(6,5)]
    format_qa_summary_known[OF assms(7)]
  consider (O) "current_stage s = ''opening''" | (F) "current_stage s = ''free_debate''"
    | (C) "current_stage s = ''closing''"
    using assms(4) by auto
  then show ?thesis
  proof cases
    case O
    show ?thesis
      using assms(1,2,3) O
      by (auto simp: known generate_agent_response_def generate_opening_statement_def turn_update_def
          split: sum.splits prod.splits dest!: get_rag_effect)
  next
    case F
    show ?thesis
      using assms(1,2,3,5) F
      by (auto simp: known generate_agent_response_def generate_free_debate_response_def
            turn_update_def
          split: sum.splits prod.splits dest!: get_rag_later)
  next
    case C
    show ?thesis
      using assms(1,2,3) C
      by (auto simp: known generate_agent_response_def generate_closing_statement_def turn_update_def
          split: sum.splits prod.splits dest!: get_rag_later)
  qed
qed

text \<open>
  In the questioning stage the schedule is driven by the ledger, not by the counter. While
  no question has been recorded, a node execution whose inference call raises leaves the
  ledger empty and the run in the opening or questioning stage.
\<close>

lemma step_before_first_question:
  assumes gr: "create_multi_agent_graph agents = Inr gr" and r1: "1 \<le> rounds"
    and con: "consistent agents rounds node s" and ne: "node \<noteq> END"
    and b: "before_first_question s" and fail: "\<not> inference_succeeds e"
  shows "\<exists>node' s'. step g gr e (Running node s) = Running node' s' \<and> before_first_question s'"
proof -
  note v = graph_valid[OF gr]
  from gr r1 con ne show ?thesis
  proof (cases rule: step_cases[where g=g and e=e])
    case (speak_opening s1 u)
    note t = opening_turn[OF speak_opening(4,1)]
    show ?thesis
      unfolding speak_opening(6) by (simp add: before_first_question_def t(1))
  next
    case (enter_questioning q)
    show ?thesis
      unfolding enter_questioning(5) by (simp add: before_first_question_def transition_fields)
  next
    case (pass q)
    show ?thesis unfolding pass(6) using b by simp
  next
    case (speak_question s1 u n)
    have nw: "\<not> (waiting_for_answer s \<and> current_target s = node)" using speak_question(2) by simp
    note t = question_turn[OF speak_question(5,1) nw]
    have "questions_asked (apply_update u s1) = questions_asked s \<and>
          waiting_for_answer (apply_update u s1) = waiting_for_answer s"
      using t(11) fail by blast
    then show ?thesis
      unfolding speak_question(7) using b speak_question(1)
      by (simp add: before_first_question_def t(1))
  next
    case (speak_answer s1 u n)
    then show ?thesis using b by (simp add: before_first_question_def)
  next
    case enter_free_debate
    then show ?thesis using b v(3) by (simp add: before_first_question_def)
  next
    case (speak_free s1 u)
    then show ?thesis using b by (simp add: before_first_question_def)
  next
    case enter_closing
    then show ?thesis using b by (simp add: before_first_question_def)
  next
    case (speak_closing s1 u)
    then show ?thesis using b by (simp add: before_first_question_def)
  qed
qed

lemma exec_before_first_question:
  assumes gr: "create_multi_agent_graph agents = Inr gr" and r1: "1 \<le> rounds"
  shows "\<forall>e\<in>set envs. \<not> inference_succeeds e \<Longrightarrow>
         \<exists>node s. exec g gr envs (start gr (initial_state topic rounds agents enable_rag max_refs))
                    = Running node s \<and> before_first_question s"
proof (induction envs rule: rev_induct)
  case Nil
  show ?case
    by (simp add: exec_Nil start_def before_first_question_def initial_state_def)
next
  case (snoc e envs)
  let ?c = "exec g gr envs (start gr (initial_state topic rounds agents enable_rag max_refs))"
  have fail: "\<not> inference_succeeds e" and rest: "\<forall>e\<in>set envs. \<not> inference_succeeds e"
    using snoc.prems by simp_all
  from snoc.IH[OF rest] obtain node s where c: "?c = Running node s" and b: "before_first_question s"
    by blast
  have "consistent_outcome agents rounds ?c" by (rule reachable_consistent[OF gr r1])
  then have ne: "node \<noteq> END" and con: "consistent agents rounds node s" by (simp_all add: c)
  show ?case
    using step_before_first_question[OF gr r1 con ne b fail, of g]
    by (simp add: exec_snoc c)
qed

text \<open>
  Under the recursion limit: the states of a limited run are states of \<open>exec\<close>, and a run
  in which every inference call raises is aborted at the limit.
\<close>

lemma exec_limited_prefix:
  "exec_limited g gr allowed envs c = Some c' \<Longrightarrow> c' = exec g gr (take allowed envs) c"
  by (auto simp: exec_limited_def split: outcome.splits if_splits)

lemma failing_inference_hits_limit:
  assumes gr: "create_multi_agent_graph agents = Inr gr" and r1: "1 \<le> rounds"
    and fail: "\<forall>e\<in>set envs. \<not> inference_succeeds e" and long: "allowed \<le> length envs"
  shows "exec_limited g gr allowed envs
           (start gr (initial_state topic rounds agents enable_rag max_refs)) = None"
proof -
  have "\<forall>e\<in>set (take allowed envs). \<not> inference_succeeds e"
    using fail by (meson in_set_takeD)
  from exec_before_first_question[OF gr r1 this, of g topic enable_rag max_refs]
  obtain node s where
    "exec g gr (take allowed envs) (start gr (initial_state topic rounds agents enable_rag max_refs))
       = Running node s" by blast
  then show ?thesis using long by (simp add: exec_limited_def)
qed

subsection \<open>The question generator and its own draw\<close>

text \<open>
  \<^verbatim>\<open>_generate_question\<close> runs the selection with the draw \<open>question_picks\<close>. When the
  selection names another participant the generator returns the "not my question time"
  turn; when it names the participant itself and inference answers, the generator records
  the question to the target the same selection drew.
\<close>

lemma question_mismatch:
  assumes "AVAILABLE_ROLES a = Some name"
    and "select_next_questioner_and_target (active_agents s) (questions_asked s) (question_picks e)
           = Inr (q, t)"
    and "q \<noteq> a"
  shows "generate_question g e s a = Inr (s, turn_update s (name @ not_my_question_time_text))"
  using assms by (simp add: generate_question_def)

lemma question_match:
  assumes "AVAILABLE_ROLES a = Some name"
    and "select_next_questioner_and_target (active_agents s) (questions_asked s) (question_picks e)
           = Inr (a, t)"
    and "AVAILABLE_ROLES t \<noteq> None"
    and "\<forall>k\<in>set (active_agents s). AVAILABLE_ROLES k \<noteq> None"
    and "current_stage s \<noteq> ''opening''"
    and "inferred e = InferReturns raw"
  shows "generate_question g e s a
           = Inr (s, (turn_update s (finish_response name raw))
                \<lparr>u_questions_asked := Some (questions_asked s @
                    [\<lparr>questioner = a, target = t, question = finish_response name raw,
                      answer = ''''\<rparr>]),
                 u_current_questioner := Some a,
                 u_current_target := Some t,
                 u_waiting_for_answer := Some True\<rparr>)"
  using assms
  by (auto simp: generate_question_def Let_def get_other_participants_known
        format_opening_statements_known
      split: sum.splits prod.splits dest!: get_rag_later)

subsection \<open>The application before the graph starts\<close>




subsection \<open>The scheduler's rules\<close>

text \<open>
  Claim C2. In a state with a non-negative progress counter and at least one participant,
  the scheduler follows the per-stage indexing rule. Opening: the participant at index
  \<open>stage_progress\<close> while that is below the number of participants, then the transition
  to questioning. Free debate: with \<open>round = stage_progress div N + 1\<close>, the participant
  at index \<open>stage_progress mod N\<close> while \<open>round \<le> max_rounds\<close>, then the transition to
  closing. Closing: as opening, then the end of the debate.
\<close>

theorem C2_per_stage_indexing:
  assumes "0 \<le> stage_progress s" and "active_agents s \<noteq> []"
  shows "(current_stage s = ''opening'' \<longrightarrow>
            determine_next_node picks s =
              (if stage_progress s < int (length (active_agents s))
               then Inr (active_agents s ! nat (stage_progress s))
               else Inr ''questioning''))
       \<and> (current_stage s = ''free_debate'' \<longrightarrow>
            determine_next_node picks s =
              (if stage_progress s div int (length (active_agents s)) + 1 \<le> max_rounds s
               then Inr (active_agents s ! nat (stage_progress s mod int (length (active_agents s))))
               else Inr ''closing''))
       \<and> (current_stage s = ''closing'' \<longrightarrow>
            determine_next_node picks s =
              (if stage_progress s < int (length (active_agents s))
               then Inr (active_agents s ! nat (stage_progress s))
               else Inr END))"
proof -
  let ?n = "int (length (active_agents s))"
  have pos: "0 < ?n" using assms(2) by simp
  have m: "0 \<le> stage_progress s mod ?n" "stage_progress s mod ?n < ?n"
    using pos by simp_all
  show ?thesis
    using assms m by (simp add: determine_next_node_def py_index_nonneg Let_def)
qed

text \<open>The rule at the start of a debate, inside and at the end of free debate, and at the end of closing.\<close>

theorem C2_per_stage_indexing_witness:
  "determine_next_node (0, 0) ex_state = Inr ''tech_expert''
   \<and> determine_next_node (0, 0) (ex_state\<lparr>current_stage := ''free_debate'', stage_progress := 4\<rparr>)
       = Inr ''sociologist''
   \<and> determine_next_node (0, 0) (ex_state\<lparr>current_stage := ''free_debate'', stage_progress := 6\<rparr>)
       = Inr ''closing''
   \<and> determine_next_node (0, 0) (ex_state\<lparr>current_stage := ''closing'', stage_progress := 3\<rparr>)
       = Inr END"
  using C2_per_stage_indexing [of ex_state "(0, 0)"]
    C2_per_stage_indexing [of "ex_state\<lparr>current_stage := ''free_debate'', stage_progress := 4\<rparr>" "(0, 0)"]
    C2_per_stage_indexing [of "ex_state\<lparr>current_stage := ''free_debate'', stage_progress := 6\<rparr>" "(0, 0)"]
    C2_per_stage_indexing [of "ex_state\<lparr>current_stage := ''closing'', stage_progress := 3\<rparr>" "(0, 0)"]
  by (simp add: ex_state_def initial_state_def ex_agents_def)

text \<open>
  Claim C3. While an answer is pending in the questioning stage the scheduler returns the
  addressed participant, whatever the draws; when the addressed participant is empty or not
  active it returns the transition to free debate, not the end. The node of any other
  participant then passes the turn on to the addressed one without a message and without
  a change of the state.
\<close>

theorem C3_answer_forcing:
  assumes "current_stage s = ''questioning''" and "waiting_for_answer s"
  shows "determine_next_node picks s =
           (if current_target s \<noteq> [] \<and> current_target s \<in> set (active_agents s)
            then Inr (current_target s) else Inr ''free_debate'')
       \<and> (\<forall>agent_key. current_target s \<in> set (active_agents s)
             \<and> AVAILABLE_ROLES (current_target s) \<noteq> None
             \<and> agent_key \<noteq> current_target s
           \<longrightarrow> agent_node g e agent_key s = (s, empty_update, current_target s))"
proof -
  have d: "determine_next_node picks s =
           (if current_target s \<noteq> [] \<and> current_target s \<in> set (active_agents s)
            then Inr (current_target s) else Inr ''free_debate'')" for picks
    using assms by (simp add: determine_next_node_def)
  have "agent_node g e agent_key s = (s, empty_update, current_target s)"
    if "current_target s \<in> set (active_agents s)" "AVAILABLE_ROLES (current_target s) \<noteq> None"
       "agent_key \<noteq> current_target s" for agent_key
    using that role_key_not_reserved[OF that(2)]
    by (simp add: agent_node_def d)
  then show ?thesis using d by blast
qed

text \<open>A pending answer of an active participant, of one that is not active, and another participant's node during the wait.\<close>

theorem C3_answer_forcing_witness:
  "determine_next_node (0, 0)
     (ex_state\<lparr>current_stage := ''questioning'', waiting_for_answer := True,
               current_target := ''ethicist''\<rparr>) = Inr ''ethicist''
   \<and> determine_next_node (0, 0)
     (ex_state\<lparr>current_stage := ''questioning'', waiting_for_answer := True,
               current_target := ''economist''\<rparr>) = Inr ''free_debate''
   \<and> agent_node ex_globals ex_env ''tech_expert''
     (ex_state\<lparr>current_stage := ''questioning'', waiting_for_answer := True,
               current_target := ''ethicist''\<rparr>)
     = (ex_state\<lparr>current_stage := ''questioning'', waiting_for_answer := True,
               current_target := ''ethicist''\<rparr>, empty_update, ''ethicist'')"
  using C3_answer_forcing [of "ex_state\<lparr>current_stage := ''questioning'', waiting_for_answer := True,
               current_target := ''ethicist''\<rparr>" "(0, 0)" ex_globals ex_env]
    C3_answer_forcing [of "ex_state\<lparr>current_stage := ''questioning'', waiting_for_answer := True,
               current_target := ''economist''\<rparr>" "(0, 0)" ex_globals ex_env]
  by (simp add: ex_state_def initial_state_def ex_agents_def AVAILABLE_ROLES_def)

subsection \<open>Fair rotation\<close>

text \<open>
  Claim C5. For distinct participants, at least two of them, and a ledger over them, the
  selection succeeds; the questioner is the entry, at the index the generator draws, of the
  duplicate-free list of the participants with the minimal authored count, and the target
  is the entry, at the second index drawn, of the duplicate-free list of the remaining
  participants with the minimal received count among them. Every member of a pool is at
  exactly one index, so an index drawn uniformly (which is what \<^verbatim>\<open>random.choice\<close>
  does) picks uniformly among the members.
\<close>

theorem C5_fair_rotation_selection:
  assumes "distinct agents" and "2 \<le> length agents"
    and "\<forall>qa\<in>set asked. questioner qa \<in> set agents \<and> target qa \<in> set agents"
  shows "\<exists>q t. select_next_questioner_and_target agents asked (r1, r2) = Inr (q, t)
       \<and> min_authored_pool agents asked \<noteq> [] \<and> distinct (min_authored_pool agents asked)
       \<and> q = min_authored_pool agents asked ! (r1 mod length (min_authored_pool agents asked))
       \<and> min_received_pool agents asked q \<noteq> [] \<and> distinct (min_received_pool agents asked q)
       \<and> t = min_received_pool agents asked q ! (r2 mod length (min_received_pool agents asked q))
       \<and> (\<forall>c\<in>set (min_authored_pool agents asked).
             \<exists>!k. k < length (min_authored_pool agents asked)
                  \<and> min_authored_pool agents asked ! k = c)
       \<and> (\<forall>c\<in>set (min_received_pool agents asked q).
             \<exists>!k. k < length (min_received_pool agents asked q)
                  \<and> min_received_pool agents asked q ! k = c)"
proof -
  let ?P = "min_authored_pool agents asked"
  let ?q = "?P ! (r1 mod length ?P)"
  let ?T = "min_received_pool agents asked ?q"
  have dP: "distinct ?P" using assms(1) by (simp add: min_authored_pool_def)
  have dT: "distinct ?T" using assms(1) by (simp add: min_received_pool_def Let_def)
  have sel: "select_next_questioner_and_target agents asked (r1, r2)
      = Inr (?q, ?T ! (r2 mod length ?T))"
    using select_refines(1)[OF assms, of r1 r2] by (simp add: Let_def)
  have uP: "\<forall>c\<in>set ?P. \<exists>!k. k < length ?P \<and> ?P ! k = c"
    using dP by (simp add: distinct_Ex1)
  have uT: "\<forall>c\<in>set ?T. \<exists>!k. k < length ?T \<and> ?T ! k = c"
    using dT by (simp add: distinct_Ex1)
  show ?thesis
    using sel dP dT uP uT select_refines(2)[OF assms] select_refines(3)[OF assms, of ?q]
    by blast
qed

text \<open>After one question by the first participant, the second draw of the questioner picks the third participant.\<close>

theorem C5_fair_rotation_selection_witness:
  "select_next_questioner_and_target ex_agents
     [\<lparr>questioner = ''tech_expert'', target = ''sociologist'', question = ''q'', answer = ''a''\<rparr>]
     (1, 0) = Inr (''ethicist'', ''tech_expert'')
   \<and> min_authored_pool ex_agents
     [\<lparr>questioner = ''tech_expert'', target = ''sociologist'', question = ''q'', answer = ''a''\<rparr>]
     = [''sociologist'', ''ethicist'']
   \<and> min_received_pool ex_agents
     [\<lparr>questioner = ''tech_expert'', target = ''sociologist'', question = ''q'', answer = ''a''\<rparr>]
     ''ethicist'' = [''tech_expert'']"
  using C5_fair_rotation_selection [of ex_agents
     "[\<lparr>questioner = ''tech_expert'', target = ''sociologist'', question = ''q'', answer = ''a''\<rparr>]" 1 0]
  by (simp add: ex_agents_def min_authored_pool_def min_received_pool_def authored_def received_def)

subsection \<open>The context cache on a fetch that finds nothing\<close>




subsection \<open>The question generator draws again\<close>

text \<open>
  Claim C10. In a run of a valid debate, let the runtime be at the node of a participant in
  the questioning stage with no answer pending, let the scheduler's draw (\<open>route_picks\<close>)
  name that participant, and let the selection run by the question generator with its own
  draw (\<open>question_picks\<close>) name \<open>q\<close> with target \<open>t\<close>. If \<open>q\<close> is another participant, the node
  returns the "not my question time" message under the participant's name, with both
  counters incremented and no \<^verbatim>\<open>questions_asked\<close> key: the turn is consumed without a
  question or an answer. If \<open>q\<close> is the participant itself and inference answers, the node
  records the question to \<open>t\<close> and the turn is not wasted. So the outcome of the turn is
  decided by the generator's draw, not by the scheduler's. And there is a reachable state
  of the questioning stage with more than one participant tied at the minimal authored
  count in which the two draws name different participants (the example debate after the
  three opening turns and the transition to questioning).
\<close>

theorem C10_generator_redraw_mismatch:
  assumes gr: "create_multi_agent_graph agents = Inr gr" and r1: "1 \<le> rounds"
    and run: "exec g gr envs (start gr (initial_state topic rounds agents enable_rag max_refs))
                = Running node s"
    and stage: "current_stage s = ''questioning''" and nw: "\<not> waiting_for_answer s"
    and node: "node \<in> set agents" and ready: "deepseek_ready g"
    and route: "determine_next_node (route_picks e) s = Inr node"
    and sel: "select_next_questioner_and_target (active_agents s) (questions_asked s)
                (question_picks e) = Inr (q, t)"
  shows "(q \<noteq> node \<longrightarrow>
            (\<exists>name goto. AVAILABLE_ROLES node = Some name \<and>
               agent_node g e node s
                 = (s, turn_update s (name @ not_my_question_time_text), goto) \<and>
               step g gr e (Running node s)
                 = Running goto (apply_update (turn_update s (name @ not_my_question_time_text)) s) \<and>
               total_messages (apply_update (turn_update s (name @ not_my_question_time_text)) s)
                 = total_messages s + 1 \<and>
               stage_progress (apply_update (turn_update s (name @ not_my_question_time_text)) s)
                 = stage_progress s + 1 \<and>
               questions_asked (apply_update (turn_update s (name @ not_my_question_time_text)) s)
                 = questions_asked s \<and>
               \<not> waiting_for_answer
                    (apply_update (turn_update s (name @ not_my_question_time_text)) s))
          \<and> wasted_turn g gr e (Running node s))
       \<and> (q = node \<longrightarrow> (\<forall>raw. inferred e = InferReturns raw \<longrightarrow>
            (\<exists>name goto. AVAILABLE_ROLES node = Some name \<and>
               agent_node g e node s
                 = (s, (turn_update s (finish_response name raw))
                      \<lparr>u_questions_asked := Some (questions_asked s @
                          [\<lparr>questioner = node, target = t,
                            question = finish_response name raw, answer = ''''\<rparr>]),
                       u_current_questioner := Some node,
                       u_current_target := Some t,
                       u_waiting_for_answer := Some True\<rparr>, goto))
            \<and> \<not> wasted_turn g gr e (Running node s)))
       \<and> (\<exists>envs' (e'::env) node' s' q' t'.
             exec ex_globals ex_graph envs' (start ex_graph ex_state) = Running node' s'
           \<and> current_stage s' = ''questioning'' \<and> \<not> waiting_for_answer s'
           \<and> 1 < length (min_authored_pool (active_agents s') (questions_asked s'))
           \<and> determine_next_node (route_picks e') s' = Inr node'
           \<and> select_next_questioner_and_target (active_agents s') (questions_asked s')
                (question_picks e') = Inr (q', t')
           \<and> q' \<noteq> node')"
proof -
  note v = graph_valid[OF gr]
  have co: "consistent_outcome agents rounds (Running node s)"
    using reachable_consistent[OF gr r1, of g envs topic enable_rag max_refs] run by simp
  then have con: "consistent agents rounds node s" by simp
  note c = consistentD[OF con]
  obtain name where name: "AVAILABLE_ROLES node = Some name" using v(6)[OF node] by blast
  have known: "\<forall>k\<in>set (active_agents s). AVAILABLE_ROLES k \<noteq> None" using v(6) c(1) by simp
  have two: "2 \<le> length agents" using v(3) by simp
  have lt: "length (questions_asked s) < length agents"
  proof (rule ccontr)
    assume "\<not> length (questions_asked s) < length agents"
    then have "determine_next_node (route_picks e) s = Inr ''free_debate''"
      using det_done[OF stage nw] c(1) by simp
    then have "node = ''free_debate''" using route by simp
    then show False using role_key_not_reserved(2)[OF v(6)[OF node]] by simp
  qed
  have gen: "generate_agent_response g e s node = generate_agent_response g e s node" ..
  have resp: "generate_agent_response g e s node
                = (case generate_question g e s node of
                     Inl (s1, msg) \<Rightarrow> Inr (s1, turn_update s1 (name @ cannot_speak_text @ msg))
                   | Inr result \<Rightarrow> Inr result)"
    using name ready stage nw by (simp add: generate_agent_response_def)
  have A: "(\<exists>name goto. AVAILABLE_ROLES node = Some name \<and>
               agent_node g e node s
                 = (s, turn_update s (name @ not_my_question_time_text), goto) \<and>
               step g gr e (Running node s)
                 = Running goto (apply_update (turn_update s (name @ not_my_question_time_text)) s) \<and>
               total_messages (apply_update (turn_update s (name @ not_my_question_time_text)) s)
                 = total_messages s + 1 \<and>
               stage_progress (apply_update (turn_update s (name @ not_my_question_time_text)) s)
                 = stage_progress s + 1 \<and>
               questions_asked (apply_update (turn_update s (name @ not_my_question_time_text)) s)
                 = questions_asked s \<and>
               \<not> waiting_for_answer
                    (apply_update (turn_update s (name @ not_my_question_time_text)) s))
          \<and> wasted_turn g gr e (Running node s)" if ne: "q \<noteq> node"
  proof -
    let ?u = "turn_update s (name @ not_my_question_time_text)"
    have g1: "generate_agent_response g e s node = Inr (s, ?u)"
      unfolding resp question_mismatch[OF name sel ne] by simp
    have f: "current_stage (apply_update ?u s) = ''questioning''"
      "\<not> waiting_for_answer (apply_update ?u s)"
      "questions_asked (apply_update ?u s) = questions_asked s"
      "active_agents (apply_update ?u s) = agents"
      using stage nw c(1) by (simp_all add: update_defs)
    have lt': "length (questions_asked (apply_update ?u s)) < length (active_agents (apply_update ?u s))"
      using lt by (simp add: f)
    have d': "distinct (active_agents (apply_update ?u s))" using v(5) by (simp add: f)
    have two': "2 \<le> length (active_agents (apply_update ?u s))" using two by (simp add: f)
    have ok': "qa_ok (active_agents (apply_update ?u s)) (questions_asked (apply_update ?u s))"
      using c(4) by (simp add: f)
    from det_asking[OF f(1,2) lt' d' two' ok', of "next_picks e"]
    obtain n where nxt: "determine_next_node (next_picks e) (apply_update ?u s) = Inr n"
      and n: "n \<in> set (active_agents (apply_update ?u s))" by blast
    have nend: "n \<noteq> END" using n agent_not_end[OF gr] by (auto simp: f)
    note st = step_turn[OF gr node route g1 nxt]
    have an: "agent_node g e node s = (s, ?u, n)"
      using st(1) node by (simp add: run_node_def v(1))
    have w: "wasted_turn g gr e (Running node s)"
      unfolding wasted_turn_run_node[OF st(1)] using stage by (simp add: update_defs)
    have cnt: "total_messages (apply_update ?u s) = total_messages s + 1"
      "stage_progress (apply_update ?u s) = stage_progress s + 1"
      by (simp_all add: update_defs)
    show ?thesis using name an st(2) nend w f(2,3) cnt by auto
  qed
  have B: "(\<exists>name goto. AVAILABLE_ROLES node = Some name \<and>
               agent_node g e node s
                 = (s, (turn_update s (finish_response name raw))
                      \<lparr>u_questions_asked := Some (questions_asked s @
                          [\<lparr>questioner = node, target = t,
                            question = finish_response name raw, answer = ''''\<rparr>]),
                       u_current_questioner := Some node,
                       u_current_target := Some t,
                       u_waiting_for_answer := Some True\<rparr>, goto))
            \<and> \<not> wasted_turn g gr e (Running node s)"
    if eq: "q = node" and inf: "inferred e = InferReturns raw" for raw
  proof -
    let ?u = "(turn_update s (finish_response name raw))
                \<lparr>u_questions_asked := Some (questions_asked s @
                    [\<lparr>questioner = node, target = t,
                      question = finish_response name raw, answer = ''''\<rparr>]),
                 u_current_questioner := Some node,
                 u_current_target := Some t,
                 u_waiting_for_answer := Some True\<rparr>"
    from select_ok[OF v(5) two c(4), of "question_picks e"] sel c(1)
    have t: "t \<in> set agents" by auto
    have tk: "AVAILABLE_ROLES t \<noteq> None" by (rule v(6)[OF t])
    have no: "current_stage s \<noteq> ''opening''" using stage by simp
    have sel': "select_next_questioner_and_target (active_agents s) (questions_asked s)
                  (question_picks e) = Inr (node, t)" using sel eq by simp
    have g1: "generate_agent_response g e s node = Inr (s, ?u)"
      unfolding resp question_match[OF name sel' tk known no inf] by simp
    have f: "current_stage (apply_update ?u s) = ''questioning''"
      "waiting_for_answer (apply_update ?u s)"
      "current_target (apply_update ?u s) = t"
      "active_agents (apply_update ?u s) = agents"
      using stage c(1) by (simp_all add: update_defs)
    have tne: "t \<noteq> []" using role_key_not_reserved(5)[OF tk] .
    have nxt: "determine_next_node (next_picks e) (apply_update ?u s) = Inr t"
      using det_waiting[OF f(1,2), of "next_picks e"] t tne by (simp add: f)
    note st = step_turn[OF gr node route g1 nxt]
    have an: "agent_node g e node s = (s, ?u, t)"
      using st(1) node by (simp add: run_node_def v(1))
    have w: "\<not> wasted_turn g gr e (Running node s)"
      unfolding wasted_turn_run_node[OF st(1)] by (simp add: update_defs)
    show ?thesis using name an w by auto
  qed
  have C: "\<exists>envs' (e'::env) node' s' q' t'.
             exec ex_globals ex_graph envs' (start ex_graph ex_state) = Running node' s'
           \<and> current_stage s' = ''questioning'' \<and> \<not> waiting_for_answer s'
           \<and> 1 < length (min_authored_pool (active_agents s') (questions_asked s'))
           \<and> determine_next_node (route_picks e') s' = Inr node'
           \<and> select_next_questioner_and_target (active_agents s') (questions_asked s')
                (question_picks e') = Inr (q', t')
           \<and> q' \<noteq> node'"
    apply (rule exI[where x="replicate 4 ex_env"])
    apply (rule exI[where x="ex_env_other_draw"])
    apply (rule exI[where x="''tech_expert''"])
    apply (rule exI[where x="the (outcome_state
         (exec ex_globals ex_graph (replicate 4 ex_env) (start ex_graph ex_state)))"])
    apply (rule exI[where x="''sociologist''"])
    apply (rule exI[where x="''tech_expert''"])
    using ex_redraw_state by simp
  show ?thesis using A B C by blast
qed

text \<open>The example debate after four node executions, with the other draw.\<close>

theorem C10_generator_redraw_mismatch_witness:
  "wasted_turn ex_globals ex_graph ex_env_other_draw
     (exec ex_globals ex_graph (replicate 4 ex_env) (start ex_graph ex_state))
   \<and> (\<exists>goto. agent_node ex_globals ex_env_other_draw ''tech_expert''
         (the (outcome_state
            (exec ex_globals ex_graph (replicate 4 ex_env) (start ex_graph ex_state))))
       = (the (outcome_state
            (exec ex_globals ex_graph (replicate 4 ex_env) (start ex_graph ex_state))),
          turn_update (the (outcome_state
            (exec ex_globals ex_graph (replicate 4 ex_env) (start ex_graph ex_state))))
            (name_tech_expert @ not_my_question_time_text), goto))"
proof -
  have r: "(1::int) \<le> 2" by simp
  have n: "''tech_expert'' \<in> set ex_agents" by (simp add: ex_agents_def)
  have g: "deepseek_ready ex_globals" by (simp add: ex_globals_def)
  have ne: "''sociologist'' \<noteq> ''tech_expert''" by simp
  have nm: "AVAILABLE_ROLES ''tech_expert'' = Some name_tech_expert"
    by (simp add: AVAILABLE_ROLES_def)
  show ?thesis
    using C10_generator_redraw_mismatch[OF ex_graph_created r
        ex_redraw_state(1,2,3)[unfolded ex_state_def] n g
        ex_redraw_state(5,6)[unfolded ex_state_def]]
      ne nm ex_redraw_state(1)
    by (auto simp: ex_state_def)
qed

subsection \<open>The number of turns of a debate\<close>

text \<open>
  Claim C1 says that a debate that ends has produced \<open>N * (3 + max_rounds)\<close> turns, 15 for
  three participants and two rounds. The questioning stage takes a question turn and an
  answer turn for each participant, not one turn: the example debate ends with 18 turns
  counted.
\<close>

theorem C1_fifteen_turns_counterexample:
  "terminated (exec ex_globals ex_graph (replicate 21 ex_env) (start ex_graph ex_state))
   \<and> map_option total_messages (outcome_state
       (exec ex_globals ex_graph (replicate 21 ex_env) (start ex_graph ex_state))) = Some 18
   \<and> map_option total_messages (outcome_state
       (exec ex_globals ex_graph (replicate 21 ex_env) (start ex_graph ex_state)))
       \<noteq> Some (3 * (3 + 2))"
  by code_simp

text \<open>
  Claim C1, amended. For a participant list the graph accepts (3 to 6 distinct known
  participants), at least one round, and any behaviour of the draws and the collaborators:
  a run that ends has counted \<open>N + 2 * N + N * max_rounds + N = N * (4 + max_rounds)\<close> turns
  plus one for every wasted questioning turn, and its transcript holds these turns and
  3 transition announcements.
\<close>

theorem C1_total_turns:
  assumes "create_multi_agent_graph agents = Inr gr" and "1 \<le> rounds"
    and "exec g gr envs (start gr (initial_state topic rounds agents enable_rag max_refs)) = Terminated s"
  shows "total_messages s = int (length agents) * (4 + rounds)
           + int (wasted_turns g gr envs (start gr (initial_state topic rounds agents enable_rag max_refs)))
       \<and> int (length (messages s)) = total_messages s + 3"
proof -
  let ?c = "start gr (initial_state topic rounds agents enable_rag max_refs)"
  have con0: "consistent_outcome agents rounds ?c" by (rule start_consistent[OF assms(1)])
  have "consistent_outcome agents rounds (exec g gr envs ?c)"
    by (rule exec_consistent[OF assms(1,2) con0])
  then have cE: "consistent agents rounds END s" by (simp add: assms(3))
  note e = consistent_end[OF assms(1) cE]
  have o: "owed s = 0" "transitions_left s = 0"
    using e consistentD(1)[OF cE] by (simp_all add: owed_def Let_def transitions_left_def)
  have b: "balance (Terminated s) = total_messages s"
    "transcript_balance (Terminated s) = int (length (messages s))"
    by (simp_all add: balance_def transcript_balance_def o)
  from exec_balance[OF assms(1,2) con0, of g envs]
  have "balance (Terminated s) = balance ?c + int (wasted_turns g gr envs ?c)"
    and "transcript_balance (Terminated s) = transcript_balance ?c + int (wasted_turns g gr envs ?c)"
    by (simp_all add: assms(3))
  then show ?thesis
    unfolding b start_balance by simp
qed

text \<open>The example debate: 18 turns, 21 messages.\<close>

theorem C1_total_turns_witness:
  "map_option total_messages (outcome_state
     (exec ex_globals ex_graph (replicate 21 ex_env) (start ex_graph ex_state)))
   = Some (3 * (4 + 2))
   \<and> map_option (length \<circ> messages) (outcome_state
     (exec ex_globals ex_graph (replicate 21 ex_env) (start ex_graph ex_state)))
   = Some (18 + 3)"
proof -
  let ?c = "start ex_graph ex_state"
  let ?run = "exec ex_globals ex_graph (replicate 21 ex_env) ?c"
  have r: "(1::int) \<le> 2" by simp
  have l: "int (length ex_agents) = 3" by (simp add: ex_agents_def)
  obtain s where t: "?run = Terminated s" using ex_run_terminates by blast
  have w: "wasted_turns ex_globals ex_graph (replicate 21 ex_env) ?c = 0"
    by code_simp
  have "total_messages s = int (length ex_agents) * (4 + 2)
           + int (wasted_turns ex_globals ex_graph (replicate 21 ex_env) ?c)
       \<and> int (length (messages s)) = total_messages s + 3"
    unfolding ex_state_def
    by (rule C1_total_turns[OF ex_graph_created r t[unfolded ex_state_def]])
  then have v: "total_messages s = 18" "length (messages s) = 21"
    unfolding w l by simp_all
  show ?thesis
    unfolding t using v by simp
qed

subsection \<open>The question ledger\<close>

text \<open>
  Claim C4. In every state a run of a valid debate reaches, whatever the draws and the
  collaborators do, the ledger has at most as many records as there are participants; and
  once the questioning stage is complete (the runtime is at the transition to free debate,
  or the stage is free debate or closing) every participant is the questioner of exactly
  one record.
\<close>

theorem C4_question_ledger:
  assumes "create_multi_agent_graph agents = Inr gr" and "1 \<le> rounds"
    and "outcome_state (exec g gr envs (start gr (initial_state topic rounds agents enable_rag max_refs)))
           = Some s"
  shows "length (questions_asked s) \<le> length agents
       \<and> (current_stage s = ''free_debate'' \<or> current_stage s = ''closing'' \<or>
          exec g gr envs (start gr (initial_state topic rounds agents enable_rag max_refs))
            = Running ''free_debate'' s
          \<longrightarrow> (\<forall>a\<in>set agents. authored (questions_asked s) a = 1))"
proof -
  let ?c = "exec g gr envs (start gr (initial_state topic rounds agents enable_rag max_refs))"
  from consistent_outcome_state[OF reachable_consistent[OF assms(1,2)] assms(3)]
  obtain node where con: "consistent agents rounds node s"
    and c: "?c = Running node s \<or> (?c = Terminated s \<and> node = END)" by blast
  have ok: "qa_ok agents (questions_asked s)" by (rule consistentD(4)[OF con])
  then have le: "length (questions_asked s) \<le> length agents" by (simp add: qa_ok_def)
  have full: "length (questions_asked s) = length agents"
    if "current_stage s = ''free_debate'' \<or> current_stage s = ''closing'' \<or> ?c = Running ''free_debate'' s"
  proof -
    from that consider "current_stage s = ''free_debate''" | "current_stage s = ''closing''"
      | "?c = Running ''free_debate'' s" by blast
    then show ?thesis
    proof cases
      case 1
      then show ?thesis using con by (auto simp: consistent_def)
    next
      case 2
      then show ?thesis using con by (auto simp: consistent_def)
    next
      case 3
      then have "node = ''free_debate''" using c by auto
      then show ?thesis using consistent_free_debate_node[OF assms(1)] con by simp
    qed
  qed
  show ?thesis
    using le full all_authored_once[OF graph_valid(5)[OF assms(1)] ok] by blast
qed

text \<open>The example debate when it leaves the questioning stage.\<close>

theorem C4_question_ledger_witness:
  "map_option (\<lambda>s. map (authored (questions_asked s)) ex_agents)
     (outcome_state (exec ex_globals ex_graph (replicate 10 ex_env) (start ex_graph ex_state)))
   = Some [1, 1, 1]"
proof -
  let ?run = "exec ex_globals ex_graph (replicate 10 ex_env) (start ex_graph ex_state)"
  have r: "(1::int) \<le> 2" by simp
  obtain s where t: "?run = Running ''free_debate'' s" using ex_run_questioning_done by blast
  have os: "outcome_state ?run = Some s" by (simp add: t)
  have "\<forall>a\<in>set ex_agents. authored (questions_asked s) a = 1"
    using C4_question_ledger[OF ex_graph_created r os[unfolded ex_state_def]] t
    by (simp add: ex_state_def)
  then show ?thesis unfolding t by (simp add: ex_agents_def)
qed

subsection \<open>How often retrieval is called for a participant\<close>




subsection \<open>Opening and closing statements\<close>

text \<open>
  Claim C9 says that every run leaves the opening stage with one opening statement for
  every participant. A turn whose generation fails is counted but archives nothing: in the
  example debate with an inference collaborator that raises on every call, the stage is
  questioning after four node executions and the archive of opening statements is empty.
\<close>

theorem C9_failed_opening_counterexample:
  "map_option current_stage (outcome_state
     (exec ex_globals ex_graph (replicate 4 ex_env_failing) (start ex_graph ex_state)))
   = Some ''questioning''
   \<and> map_option opening_statements (outcome_state
     (exec ex_globals ex_graph (replicate 4 ex_env_failing) (start ex_graph ex_state)))
   = Some []"
  by code_simp

text \<open>
  Claim C9, amended. For every run of a valid debate: in every state after the opening
  stage (and already when the runtime is at the transition to questioning) the opening
  statements hold exactly one statement for every participant whose opening turn was
  generated, in registration order, and none for a participant whose opening turn failed
  (the inference client missing, or the inference call of that turn raising); and when the
  run has ended the same holds for the closing statements and the closing turns. Turns of
  other stages that fail do not matter.
\<close>

theorem C9_statements_of_generated_turns:
  assumes "create_multi_agent_graph agents = Inr gr" and "1 \<le> rounds"
    and "outcome_state (exec g gr envs (start gr (initial_state topic rounds agents enable_rag max_refs)))
           = Some s"
  shows "(current_stage s \<noteq> ''opening'' \<or>
          exec g gr envs (start gr (initial_state topic rounds agents enable_rag max_refs))
            = Running ''questioning'' s
          \<longrightarrow> map fst (opening_statements s)
                = filter (\<lambda>a. a \<notin> set (failed_speakers ''opening'' g gr envs
                     (start gr (initial_state topic rounds agents enable_rag max_refs)))) agents)
       \<and> (terminated (exec g gr envs (start gr (initial_state topic rounds agents enable_rag max_refs)))
          \<longrightarrow> map fst (closing_statements s)
                = filter (\<lambda>a. a \<notin> set (failed_speakers ''closing'' g gr envs
                     (start gr (initial_state topic rounds agents enable_rag max_refs)))) agents)
       \<and> distinct agents"
proof -
  let ?c = "exec g gr envs (start gr (initial_state topic rounds agents enable_rag max_refs))"
  let ?fo = "failed_speakers ''opening'' g gr envs
               (start gr (initial_state topic rounds agents enable_rag max_refs))"
  let ?fc = "failed_speakers ''closing'' g gr envs
               (start gr (initial_state topic rounds agents enable_rag max_refs))"
  have ok: "statements_ok agents ?fo ?fc s"
    by (rule reachable_statements_ok[OF assms(1,2,3)])
  from consistent_outcome_state[OF reachable_consistent[OF assms(1,2)] assms(3)]
  obtain node where con: "consistent agents rounds node s"
    and c: "?c = Running node s \<or> (?c = Terminated s \<and> node = END)" by blast
  have a: "map fst (opening_statements s) = filter (\<lambda>a. a \<notin> set ?fo) agents"
    if "current_stage s \<noteq> ''opening''"
    using ok that by (simp add: statements_ok_def Let_def)
  have b: "map fst (opening_statements s) = filter (\<lambda>a. a \<notin> set ?fo) agents"
    if q: "?c = Running ''questioning'' s"
  proof (cases "current_stage s = ''opening''")
    case True
    have nd: "node = ''questioning''" using c q by auto
    have notin: "''questioning'' \<notin> set agents"
      using role_key_not_reserved(1)[OF graph_valid(6)[OF assms(1)]] by blast
    have "\<not> stage_progress s < int (length agents)"
    proof
      assume lt: "stage_progress s < int (length agents)"
      then have "nat (stage_progress s) < length agents" using consistentD(3)[OF con] by simp
      then have "agents ! nat (stage_progress s) \<in> set agents" by (rule nth_mem)
      moreover have "agents ! nat (stage_progress s) = ''questioning''"
        using con True lt nd by (auto simp: consistent_def)
      ultimately show False using notin by simp
    qed
    then have "stage_progress s = int (length agents)"
      using con True by (auto simp: consistent_def)
    then show ?thesis using ok True by (simp add: statements_ok_def Let_def)
  next
    case False
    then show ?thesis by (rule a)
  qed
  have t: "map fst (closing_statements s) = filter (\<lambda>a. a \<notin> set ?fc) agents"
    if "terminated ?c"
  proof -
    from that c have "?c = Terminated s" "node = END" by (cases ?c; auto)+
    then have e: "consistent agents rounds END s" using con by simp
    note f = consistent_end[OF assms(1) e]
    show ?thesis using ok f by (simp add: statements_ok_def Let_def)
  qed
  show ?thesis using a b t graph_valid(5)[OF assms(1)] by blast
qed

text \<open>
  The example debate at its end, when inference raised in the opening turn of the second
  participant and in the closing turn of the third.
\<close>

theorem C9_statements_of_generated_turns_witness:
  "map fst (opening_statements (the (outcome_state
       (exec ex_globals ex_graph ex_envs_two_failures (start ex_graph ex_state)))))
     = [''tech_expert'', ''ethicist'']
   \<and> map fst (closing_statements (the (outcome_state
       (exec ex_globals ex_graph ex_envs_two_failures (start ex_graph ex_state)))))
     = [''tech_expert'', ''sociologist'']"
proof -
  have r: "(1::int) \<le> 2" by simp
  show ?thesis
    using C9_statements_of_generated_turns[OF ex_graph_created r
        ex_two_failures_facts(1)[unfolded ex_state_def]] ex_two_failures_facts(2-5)
    by (simp add: ex_state_def ex_agents_def)
qed

subsection \<open>A debate whose inference always fails\<close>

text \<open>
  Claim C8 says that a failed turn is counted and that a run in which inference always
  fails still reaches termination. The first part holds (\<open>failed_turn_is_counted\<close>); the
  second does not hold of the code. For a valid debate and any sequence of node executions
  in each of which the inference call raises, the run has not terminated: the runtime is
  still at a node, in the opening stage or in the questioning stage with an empty ledger of
  questions. The questioning stage ends only when the ledger holds one record per
  participant, and only a successful generation appends a record.
\<close>

theorem C8_failing_inference_never_terminates:
  assumes "create_multi_agent_graph agents = Inr gr" and "1 \<le> rounds"
    and "\<forall>e\<in>set envs. \<not> inference_succeeds e"
  shows "\<not> terminated (exec g gr envs (start gr (initial_state topic rounds agents enable_rag max_refs)))
       \<and> (\<exists>node s. exec g gr envs (start gr (initial_state topic rounds agents enable_rag max_refs))
                      = Running node s
             \<and> (current_stage s = ''opening'' \<or>
                current_stage s = ''questioning'' \<and> questions_asked s = []))"
proof -
  from exec_before_first_question[OF assms(1,2,3), of g topic enable_rag max_refs]
  obtain node s where
    c: "exec g gr envs (start gr (initial_state topic rounds agents enable_rag max_refs)) = Running node s"
    and b: "before_first_question s" by blast
  show ?thesis using c b by (auto simp: before_first_question_def)
qed

text \<open>The example debate after forty node executions with a raising inference call.\<close>

theorem C8_failing_inference_never_terminates_witness:
  "\<not> terminated (exec ex_globals ex_graph (replicate 40 ex_env_failing) (start ex_graph ex_state))
   \<and> (\<exists>node s. exec ex_globals ex_graph (replicate 40 ex_env_failing) (start ex_graph ex_state)
                  = Running node s
         \<and> (current_stage s = ''opening'' \<or>
            current_stage s = ''questioning'' \<and> questions_asked s = []))"
proof -
  have r: "(1::int) \<le> 2" by simp
  have e: "\<forall>e\<in>set (replicate 40 ex_env_failing). \<not> inference_succeeds e"
    by (simp add: ex_env_failing_def ex_env_def)
  show ?thesis
    using C8_failing_inference_never_terminates[OF ex_graph_created r e, of ex_globals]
    by (simp add: ex_state_def)
qed

end
